theory Spec2Isabelle
  imports Main "HOL-Library.AList" "HOL-Library.Product_Lexorder"
begin

section \<open>Events, identifiers and errors\<close>

text \<open>
  A content identifier is kept abstract as a natural number. Logical timestamps are
  JavaScript numbers, that is doubles; the integers stand for the doubles of integral
  value, with the one addition the store performs rounded as on doubles (\<open>addOne\<close>
  below). An event is a value: the backing map of the content store is taken to hold the
  event as it was when it was written, so that a later assignment to the caller's object
  does not reach it; the caller's object as mutated is returned beside the store.
\<close>

type_synonym ContentId = nat

record EventMetadata =
  parents :: "ContentId list"
  root :: "ContentId option"
  type :: string
  createdAt :: "int option"

record Event =
  payload :: nat
  meta :: EventMetadata

text \<open>The idiom \<^verbatim>\<open>x || 0\<close> on an optional number.\<close>

definition orZero :: "int option \<Rightarrow> int" where
  "orZero t = (case t of None \<Rightarrow> 0 | Some n \<Rightarrow> n)"

text \<open>
  The expression \<^verbatim>\<open>t + 1\<close> on a double of integral value, rounded to nearest with ties
  to even: exact up to \<open>2 ^ 53\<close>; from there to \<open>2 ^ 54\<close> the doubles are the even
  integers and the sum lies half way between two of them; beyond, the sum rounds back
  to \<open>t\<close>.
\<close>

definition addOne :: "int \<Rightarrow> int" where
  "addOne t =
     (if - (2 ^ 53) \<le> t \<and> t < 2 ^ 53 then t + 1
      else if \<bar>t\<bar> < 2 ^ 54 then (if even (t div 2) then t else t + 2)
      else t)"

datatype ErrorCode = InvalidArg | MissingDep | OpFailed

text \<open>
  A thrown error: message, optional code, optional detail and optional cause. An error
  raised by a backing map is any value of this type (a plain error has no code).
\<close>

datatype CodedError =
  CodedError (message: string) (code: "ErrorCode option")
    (detail: "ContentId list option") (cause: "CodedError option")

text \<open>
  The error constructor of \<open>@mithic/commons\<close> is not among the sources; it is taken to
  build the error from its four arguments, in the order of its calls.
\<close>

definition operationError ::
  "string \<Rightarrow> ErrorCode \<Rightarrow> ContentId list option \<Rightarrow> CodedError option \<Rightarrow> CodedError" where
  "operationError msg c d e = CodedError msg (Some c) d e"

section \<open>The store, its collaborators and the effects of a call\<close>

text \<open>
  The collaborators handed to the constructor: the clock \<open>tick\<close> (a stateful closure,
  here a function of the reference time and the clock's state), the content hash of the
  data store (\<open>getKey\<close>: the identifier it computes, and the error it throws instead,
  if any), the index key derivation and the range derivation of \<open>indices.js\<close>, the
  range scan of the index map (by range and limit), the optional batch capabilities of
  the index, and the failures of the backing maps (the error a write of that key or
  value raises, if any).
\<close>

record ('k, 'r) Collaborators =
  tick :: "int \<Rightarrow> int \<Rightarrow> int \<times> int"
  hash :: "Event \<Rightarrow> ContentId"
  hashError :: "Event \<Rightarrow> CodedError option"
  getEventIndexKeys :: "ContentId \<Rightarrow> Event \<Rightarrow> bool \<Rightarrow> 'k list"
  getEventIndexRangeQueryOptions ::
    "int \<Rightarrow> string option \<Rightarrow> ContentId option \<Rightarrow> bool option \<Rightarrow> 'r"
  indexValues :: "'r \<Rightarrow> nat option \<Rightarrow> ('k \<times> ContentId) list \<Rightarrow> ContentId list"
  hasSetMany :: bool
  hasDeleteMany :: bool
  setError :: "'k \<Rightarrow> CodedError option"
  deleteError :: "'k \<Rightarrow> CodedError option"
  putError :: "Event \<Rightarrow> CodedError option"

text \<open>
  The state of a store: the backing map of the content store, the index map and the state
  of the clock. The index map is kept as an association list with the \<open>set\<close> and
  \<open>delete\<close> of a map; the order of the list plays no role. Reads of the backing maps do
  not fail; writes fail as the collaborators say.
\<close>

record 'k Store =
  data :: "ContentId \<rightharpoonup> Event"
  index :: "('k \<times> ContentId) list"
  clock :: int

datatype 'k Effect =
  IndexSet 'k ContentId
| DataPut ContentId Event
| IndexDelete 'k

text \<open>
  What a call of \<open>put\<close> leaves behind: the identifier or the thrown error, the caller's
  event object as mutated, the store, and the writes performed on the backing maps in
  the order they happened.
\<close>

record 'k Outcome =
  result :: "CodedError + ContentId"
  event :: Event
  store :: "'k Store"
  trace :: "'k Effect list"

section \<open>The content-addressed store\<close>

text \<open>
  \<open>ContentAddressedMapStore\<close> over a backing map, with the writes it issues.
\<close>

definition cas_put ::
  "('v \<Rightarrow> ContentId) \<Rightarrow> 'v \<Rightarrow> (ContentId \<rightharpoonup> 'v) \<times> (ContentId \<times> 'v) list
     \<Rightarrow> ContentId \<times> (ContentId \<rightharpoonup> 'v) \<times> (ContentId \<times> 'v) list" where
  "cas_put h v s =
     (let cid = h v in (cid, (fst s)(cid \<mapsto> v), snd s @ [(cid, v)]))"

definition getMany :: "(ContentId \<rightharpoonup> 'v) \<Rightarrow> ContentId list \<Rightarrow> 'v option list" where
  "getMany m ks = map m ks"

section \<open>put\<close>

text \<open>The loop over the resolved parents (lines 55 to 63).\<close>

fun resolveParents ::
  "(ContentId \<times> Event option) list \<Rightarrow> (ContentId \<times> Event) list \<times> int \<times> ContentId list
     \<Rightarrow> (ContentId \<times> Event) list \<times> int \<times> ContentId list" where
  "resolveParents [] acc = acc"
| "resolveParents ((key, parent) # rest) (ps, latestTime, missing) =
     (case parent of
        Some p \<Rightarrow>
          resolveParents rest
            (ps @ [(key, p)], max latestTime (addOne (orZero (createdAt (meta p)))), missing)
      | None \<Rightarrow> resolveParents rest (ps, latestTime, missing @ [key]))"

text \<open>
  Writing index entries one after the other (lines 79 to 89); the first failure stops the
  loop, the entries before it are written. The batch interface is taken to write and
  report entry by entry, as the consuming loop reads it; its failure is wrapped, while
  with the single-entry interface the failure is thrown as the backing map raised it.
  The removal of index entries (lines 101 to 111) has the same shape.
\<close>

fun setIndices ::
  "('k, 'r) Collaborators \<Rightarrow> ('k \<times> ContentId) list \<Rightarrow> ('k \<times> ContentId) list \<Rightarrow> 'k Effect list
     \<Rightarrow> CodedError option \<times> ('k \<times> ContentId) list \<times> 'k Effect list" where
  "setIndices c [] idx tr = (None, idx, tr)"
| "setIndices c ((k, v) # rest) idx tr =
     (case setError c k of
        Some e \<Rightarrow>
          (Some (if hasSetMany c
                 then operationError ''Failed to save indices'' OpFailed None (Some e)
                 else e), idx, tr)
      | None \<Rightarrow> setIndices c rest (AList.update k v idx) (tr @ [IndexSet k v]))"

fun deleteIndices ::
  "('k, 'r) Collaborators \<Rightarrow> 'k list \<Rightarrow> ('k \<times> ContentId) list \<Rightarrow> 'k Effect list
     \<Rightarrow> CodedError option \<times> ('k \<times> ContentId) list \<times> 'k Effect list" where
  "deleteIndices c [] idx tr = (None, idx, tr)"
| "deleteIndices c (k # rest) idx tr =
     (case deleteError c k of
        Some e \<Rightarrow>
          (Some (if hasDeleteMany c
                 then operationError ''Failed to delete old indices'' OpFailed None (Some e)
                 else e), idx, tr)
      | None \<Rightarrow> deleteIndices c rest (AList.delete k idx) (tr @ [IndexDelete k]))"

definition stamp :: "Event \<Rightarrow> int \<Rightarrow> Event" where
  "stamp e t = e\<lparr>meta := (meta e)\<lparr>createdAt := Some t\<rparr>\<rparr>"

text \<open>The three write phases of lines 75 to 114, for a new identifier.\<close>

definition writePhases ::
  "('k, 'r) Collaborators \<Rightarrow> ContentId \<Rightarrow> Event \<Rightarrow> (ContentId \<times> Event) list \<Rightarrow> 'k Store
     \<Rightarrow> 'k Outcome" where
  "writePhases c key e ps s =
     (case setIndices c (map (\<lambda>indexKey. (indexKey, key)) (getEventIndexKeys c key e False))
             (index s) [] of
        (Some err, idx1, tr1) \<Rightarrow>
          \<lparr>result = Inl err, event = e, store = s\<lparr>index := idx1\<rparr>, trace = tr1\<rparr>
      | (None, idx1, tr1) \<Rightarrow>
          (case putError c e of
             Some err \<Rightarrow>
               \<lparr>result = Inl err, event = e, store = s\<lparr>index := idx1\<rparr>, trace = tr1\<rparr>
           | None \<Rightarrow>
               (let d2 = (data s)(hash c e \<mapsto> e); tr2 = tr1 @ [DataPut (hash c e) e] in
                if ps \<noteq> []
                then
                  (case deleteIndices c
                          (concat (map (\<lambda>(k, p). getEventIndexKeys c k p True) ps)) idx1 tr2 of
                     (Some err, idx3, tr3) \<Rightarrow>
                       \<lparr>result = Inl err, event = e,
                        store = s\<lparr>data := d2, index := idx3\<rparr>, trace = tr3\<rparr>
                   | (None, idx3, tr3) \<Rightarrow>
                       \<lparr>result = Inr key, event = e,
                        store = s\<lparr>data := d2, index := idx3\<rparr>, trace = tr3\<rparr>)
                else
                  \<lparr>result = Inr key, event = e,
                   store = s\<lparr>data := d2, index := idx1\<rparr>, trace = tr2\<rparr>)))"

definition put :: "('k, 'r) Collaborators \<Rightarrow> Event \<Rightarrow> 'k Store \<Rightarrow> 'k Outcome" where
  "put c e s =
     (if root (meta e) = None \<and> parents (meta e) \<noteq> []
      then \<lparr>result = Inl (operationError ''Missing root Id'' InvalidArg None None),
            event = e, store = s, trace = []\<rparr>
      else
        (case (if parents (meta e) \<noteq> []
               then resolveParents
                      (zip (parents (meta e)) (getMany (data s) (parents (meta e))))
                      ([], orZero (createdAt (meta e)), [])
               else ([], orZero (createdAt (meta e)), [])) of
           (ps, latestTime, missing) \<Rightarrow>
             if missing \<noteq> []
             then \<lparr>result = Inl (operationError ''Missing dependencies'' MissingDep
                                   (Some missing) None),
                   event = e, store = s, trace = []\<rparr>
             else
               (case tick c latestTime (clock s) of
                  (t, cl) \<Rightarrow>
                    (let e1 = stamp e t; s1 = s\<lparr>clock := cl\<rparr> in
                     case hashError c e1 of
                       Some err \<Rightarrow> \<lparr>result = Inl err, event = e1, store = s1, trace = []\<rparr>
                     | None \<Rightarrow>
                         (let key = hash c e1 in
                          if data s1 key \<noteq> None
                          then \<lparr>result = Inr key, event = e1, store = s1, trace = []\<rparr>
                          else writePhases c key e1 ps s1)))))"

section \<open>putMany\<close>

text \<open>
  What one round of the loop yields (lines 138 to 148), from what \<open>put\<close> left behind:
  the error of a failed \<open>put\<close> is caught, and the key of the result is computed from
  the event object as \<open>put\<close> left it. That \<open>getKey\<close> of line 141 stands in the
  handler and is not guarded: the error it throws leaves the generator.
\<close>

definition putItem ::
  "('k, 'r) Collaborators \<Rightarrow> 'k Outcome \<Rightarrow> CodedError + (ContentId \<times> CodedError option)" where
  "putItem c out =
     (case result out of
        Inr key \<Rightarrow> Inr (key, None)
      | Inl err \<Rightarrow>
          (case hashError c (event out) of
             Some herr \<Rightarrow> Inl herr
           | None \<Rightarrow>
               (let key = hash c (event out) in
                Inr (key,
                     Some (if code err = Some MissingDep then err
                           else operationError ''Failed to put'' OpFailed
                                  (Some [key]) (Some err))))))"

text \<open>
  The results yielded, the store at the end, and the error that ended the iteration
  early, if any.
\<close>

fun putMany ::
  "('k, 'r) Collaborators \<Rightarrow> Event list \<Rightarrow> 'k Store
     \<Rightarrow> (ContentId \<times> CodedError option) list \<times> 'k Store \<times> CodedError option" where
  "putMany c [] s = ([], s, None)"
| "putMany c (v # vs) s =
     (let out = put c v s in
      case putItem c out of
        Inl herr \<Rightarrow> ([], store out, Some herr)
      | Inr item \<Rightarrow>
          (case putMany c vs (store out) of
             (items, s', aborted) \<Rightarrow> (item # items, s', aborted)))"

section \<open>Queries\<close>

record EventStoreQueryOptions =
  since :: "ContentId list option"
  typeFilter :: "string option"
  rootFilter :: "ContentId option"
  head :: "bool option"
  limit :: "nat option"

definition sinceTimeOf :: "(ContentId \<rightharpoonup> Event) \<Rightarrow> ContentId list option \<Rightarrow> int" where
  "sinceTimeOf m ids =
     (case ids of
        None \<Rightarrow> 0
      | Some ks \<Rightarrow>
          fold (\<lambda>v sinceTime.
                  case v of Some e \<Rightarrow> max sinceTime (orZero (createdAt (meta e)))
                          | None \<Rightarrow> sinceTime)
               (getMany m ks) 0)"

text \<open>
  A generator is modelled by the list of the values it yields and its completion value.
\<close>

definition keys ::
  "('k, 'r) Collaborators \<Rightarrow> EventStoreQueryOptions \<Rightarrow> 'k Store
     \<Rightarrow> ContentId list \<times> ContentId list" where
  "keys c opts s =
     (let sinceTime = sinceTimeOf (data s) (since opts);
          range = getEventIndexRangeQueryOptions c sinceTime
                    (typeFilter opts) (rootFilter opts) (head opts);
          ks = indexValues c range (limit opts) (index s)
      in (ks, if ks = [] then [] else [last ks]))"

definition PAGE_SIZE :: nat where
  "PAGE_SIZE = 50"

definition entriesFromKeys ::
  "(ContentId \<rightharpoonup> Event) \<Rightarrow> ContentId list
     \<Rightarrow> (ContentId \<times> Event) list \<times> ContentId list" where
  "entriesFromKeys m ks =
     (let ys = concat (map (\<lambda>(k, v). case v of Some e \<Rightarrow> [(k, e)] | None \<Rightarrow> [])
                          (zip ks (getMany m ks)))
      in (ys, if ys = [] then [] else [fst (last ys)]))"

text \<open>
  The buffering loop of \<open>entries\<close>: the pages handed to \<open>entriesFromKeys\<close>, given the
  keys still to come and the buffer.
\<close>

fun bufferPages :: "ContentId list \<Rightarrow> ContentId list \<Rightarrow> ContentId list list" where
  "bufferPages [] buffer = (if buffer \<noteq> [] then [buffer] else [])"
| "bufferPages (k # ks) buffer =
     (if length (buffer @ [k]) \<ge> PAGE_SIZE
      then (buffer @ [k]) # bufferPages ks []
      else bufferPages ks (buffer @ [k]))"

definition entries ::
  "('k, 'r) Collaborators \<Rightarrow> EventStoreQueryOptions \<Rightarrow> 'k Store
     \<Rightarrow> (ContentId \<times> Event) list \<times> ContentId list" where
  "entries c opts s =
     (case keys c opts s of
        (ks, completion) \<Rightarrow>
          (concat (map (\<lambda>page. fst (entriesFromKeys (data s) page)) (bufferPages ks [])),
           completion))"

section \<open>Collaborators that are not among the sources\<close>

text \<open>
  Modelled from the spec: \<open>time.js\<close> (\<open>atomicHybridTime\<close>) is missing. Section 4.1: a tick
  returns a value strictly greater than any timestamp it has returned before and strictly
  greater than the reference time. The clock's state is the last value returned; the wall
  clock is left out.
\<close>

definition atomicHybridTime :: "int \<Rightarrow> int \<Rightarrow> int \<times> int" where
  "atomicHybridTime refTime lastTime =
     (let t = max (lastTime + 1) (refTime + 1) in (t, t))"

text \<open>
  Modelled from the spec: \<open>indices.js\<close> is missing, and with it the layout of the index
  keys. Section 4.4: four key families, global (timestamp, identifier), type-scoped (type
  segment, timestamp, identifier), root-scoped (root, timestamp, identifier) and head
  marker (identifier only). The keys are kept structured instead of laid out as bytes.
\<close>

datatype IndexKey =
  GlobalKey int ContentId
| TypeKey string int ContentId
| RootKey ContentId int ContentId
| HeadKey ContentId

text \<open>
  Modelled from the spec: the namespace prefixes of a type, split at a separator
  character (section 4.4: \<open>a/b/c\<close> yields \<open>a\<close>, \<open>a/b\<close> and \<open>a/b/c\<close>).
\<close>

fun scopesFrom :: "char \<Rightarrow> string \<Rightarrow> string \<Rightarrow> string list" where
  "scopesFrom sep acc [] = [acc]"
| "scopesFrom sep acc (x # xs) =
     (if x = sep then acc # scopesFrom sep (acc @ [x]) xs else scopesFrom sep (acc @ [x]) xs)"

text \<open>
  Modelled from the spec: \<open>getEventIndexKeys\<close> of the missing \<open>indices.js\<close>, the
  \<open>deriveKeys\<close> of section 4.4: the head marker alone when \<open>headOnly\<close> is set, otherwise
  the global key, one type-scoped key per namespace prefix, the root-scoped key and the
  head marker. An event without a root is filed under its own identifier.
\<close>

definition deriveKeys :: "char \<Rightarrow> ContentId \<Rightarrow> Event \<Rightarrow> bool \<Rightarrow> IndexKey list" where
  "deriveKeys sep key e headOnly =
     (let t = orZero (createdAt (meta e)) in
      if headOnly then [HeadKey key]
      else GlobalKey t key
           # map (\<lambda>sc. TypeKey sc t key) (scopesFrom sep [] (type (meta e)))
           @ [RootKey (case root (meta e) of None \<Rightarrow> key | Some r \<Rightarrow> r) t key, HeadKey key])"

text \<open>
  Modelled from the spec: the range of a query is a family with its scope and an optional
  exclusive lower bound on the timestamp; there is no upper bound (section 4.4).
\<close>

datatype Scope = GlobalScope | TypeScope string | RootScope ContentId | HeadScope

datatype KeyRange = KeyRange Scope "int option"

text \<open>
  Modelled from the spec: \<open>getEventIndexRangeQueryOptions\<close> of the missing \<open>indices.js\<close>,
  the \<open>deriveQueryRange\<close> of section 4.4: heads-only selects the head family regardless of
  time, then root takes precedence over type; the lower bound excludes everything at or
  before the since-time within the family.
\<close>

definition deriveQueryRange ::
  "int \<Rightarrow> string option \<Rightarrow> ContentId option \<Rightarrow> bool option \<Rightarrow> KeyRange" where
  "deriveQueryRange sinceTime typeF rootF headsOnly =
     (if headsOnly = Some True then KeyRange HeadScope None
      else case rootF of
             Some r \<Rightarrow> KeyRange (RootScope r) (Some sinceTime)
           | None \<Rightarrow>
               (case typeF of
                  Some ty \<Rightarrow> KeyRange (TypeScope ty) (Some sinceTime)
                | None \<Rightarrow> KeyRange GlobalScope (Some sinceTime)))"

text \<open>
  Modelled from the spec: the family and scope of a key, and its place in the key order.
  Within one family and scope the order of the keys is the order of (timestamp,
  identifier), as section 3 requires of the byte layout.
\<close>

fun keyScope :: "IndexKey \<Rightarrow> Scope" where
  "keyScope (GlobalKey t i) = GlobalScope"
| "keyScope (TypeKey sc t i) = TypeScope sc"
| "keyScope (RootKey r t i) = RootScope r"
| "keyScope (HeadKey i) = HeadScope"

fun keyOrder :: "IndexKey \<Rightarrow> int \<times> ContentId" where
  "keyOrder (GlobalKey t i) = (t, i)"
| "keyOrder (TypeKey sc t i) = (t, i)"
| "keyOrder (RootKey r t i) = (t, i)"
| "keyOrder (HeadKey i) = (0, i)"

text \<open>
  Modelled from the spec: a key lies within a range when it belongs to the family and
  scope and its timestamp is above the lower bound, if there is one.
\<close>

fun inRange :: "KeyRange \<Rightarrow> IndexKey \<Rightarrow> bool" where
  "inRange (KeyRange sc bound) k =
     (keyScope k = sc \<and> (case bound of None \<Rightarrow> True | Some t0 \<Rightarrow> t0 < fst (keyOrder k)))"

text \<open>
  Modelled from the spec: the range scan of the missing sorted index map (\<open>BTreeMap\<close>).
  Section 4.3: it yields the values of the keys within the bounds in key order, up to the
  limit.
\<close>

definition rangeValues ::
  "KeyRange \<Rightarrow> nat option \<Rightarrow> (IndexKey \<times> ContentId) list \<Rightarrow> ContentId list" where
  "rangeValues r lim idx =
     (let vs = map snd (sort_key (\<lambda>kv. keyOrder (fst kv)) (filter (\<lambda>kv. inRange r (fst kv)) idx))
      in case lim of None \<Rightarrow> vs | Some n \<Rightarrow> take n vs)"

section \<open>A sample instance\<close>

text \<open>
  A stand-in for the digest: it tells apart events that differ in their timestamp or in
  their (small) payload.
\<close>

definition sampleHash :: "Event \<Rightarrow> ContentId" where
  "sampleHash e = 100 * nat (orZero (createdAt (meta e))) + payload e"

definition sampleCollaborators :: "(IndexKey, KeyRange) Collaborators" where
  "sampleCollaborators =
     \<lparr>tick = atomicHybridTime, hash = sampleHash, hashError = (\<lambda>e. None),
      getEventIndexKeys = deriveKeys (CHR ''/''),
      getEventIndexRangeQueryOptions = deriveQueryRange,
      indexValues = rangeValues,
      hasSetMany = True, hasDeleteMany = True,
      setError = (\<lambda>k. None), deleteError = (\<lambda>k. None), putError = (\<lambda>e. None)\<rparr>"

definition emptyStore :: "IndexKey Store" where
  "emptyStore = \<lparr>data = Map.empty, index = [], clock = 0\<rparr>"

definition mkEvent :: "nat \<Rightarrow> ContentId list \<Rightarrow> ContentId option \<Rightarrow> string \<Rightarrow> Event" where
  "mkEvent p ps r ty =
     \<lparr>payload = p, meta = \<lparr>parents = ps, root = r, type = ty, createdAt = None\<rparr>\<rparr>"

definition sampleRoot :: Event where
  "sampleRoot = mkEvent 1 [] None ''a/b''"

definition sampleChild :: Event where
  "sampleChild = mkEvent 2 [101] (Some 101) ''a''"

definition sampleStore :: "IndexKey Store" where
  "sampleStore = store (put sampleCollaborators sampleRoot emptyStore)"

text \<open>The same collaborators with a hash that leaves the metadata out.\<close>

definition payloadCollaborators :: "(IndexKey, KeyRange) Collaborators" where
  "payloadCollaborators = sampleCollaborators\<lparr>hash := payload\<rparr>"

definition payloadFirst :: "IndexKey Outcome" where
  "payloadFirst = put payloadCollaborators sampleRoot emptyStore"

text \<open>The same collaborators with a hash that throws on one payload.\<close>

definition unhashableCollaborators :: "(IndexKey, KeyRange) Collaborators" where
  "unhashableCollaborators =
     sampleCollaborators
       \<lparr>hashError :=
          (\<lambda>e. if payload e = 9 then Some (CodedError ''cannot encode'' None None None)
               else None)\<rparr>"

definition unhashableBatch :: "Event list" where
  "unhashableBatch = [sampleRoot, mkEvent 9 [] None ''a'', mkEvent 4 [101] (Some 101) ''b'']"

definition diskFullCollaborators :: "(IndexKey, KeyRange) Collaborators" where
  "diskFullCollaborators =
     sampleCollaborators\<lparr>putError := (\<lambda>e. Some (CodedError ''disk full'' None None None))\<rparr>"

definition sampleBatch :: "Event list" where
  "sampleBatch =
     [sampleRoot, mkEvent 2 [7] (Some 7) ''a'', mkEvent 3 [7] None ''a'',
      mkEvent 4 [101] (Some 101) ''b'']"

definition allEvents :: EventStoreQueryOptions where
  "allEvents = \<lparr>since = None, typeFilter = None, rootFilter = None, head = None, limit = None\<rparr>"

definition danglingStore :: "IndexKey Store" where
  "danglingStore = store (put diskFullCollaborators sampleRoot emptyStore)"

definition headsOnly :: EventStoreQueryOptions where
  "headsOnly = \<lparr>since = None, typeFilter = None, rootFilter = None, head = Some True, limit = None\<rparr>"

section \<open>Notions of the specification\<close>

text \<open>
  The clock reference as the specification words it: the maximum of the caller's
  \<open>createdAt\<close> hint and of \<open>createdAt + 1\<close> over the parents that resolve, the sum
  being the program's sum of two numbers. It is compared with the loop of \<open>put\<close>
  below.
\<close>

definition referenceTime :: "(ContentId \<rightharpoonup> Event) \<Rightarrow> Event \<Rightarrow> int" where
  "referenceTime m e =
     Max (set (orZero (createdAt (meta e))
               # map (\<lambda>p. addOne (orZero (createdAt (meta p))))
                     (List.map_filter m (parents (meta e)))))"

text \<open>
  The backing maps never fail; the store after a sequence of calls of \<open>put\<close>; an
  identifier has a stored dependent; the consistency of the head markers with the content
  store (distinct index keys, every entry valued by the identifier in its key, parents
  stored, head markers exactly on the stored identifiers without a stored dependent).
\<close>

definition reliable :: "('k, 'r) Collaborators \<Rightarrow> bool" where
  "reliable c =
     ((\<forall>k. setError c k = None) \<and> (\<forall>k. deleteError c k = None) \<and> (\<forall>e. putError c e = None))"

definition storeAfter :: "('k, 'r) Collaborators \<Rightarrow> Event list \<Rightarrow> 'k Store \<Rightarrow> 'k Store" where
  "storeAfter c es s = foldl (\<lambda>s e. store (put c e s)) s es"

definition hasDependent :: "(ContentId \<rightharpoonup> Event) \<Rightarrow> ContentId \<Rightarrow> bool" where
  "hasDependent m k = (\<exists>k' ev. m k' = Some ev \<and> k \<in> set (parents (meta ev)))"

definition headsConsistent :: "IndexKey Store \<Rightarrow> bool" where
  "headsConsistent s =
     (distinct (map fst (index s))
      \<and> (\<forall>ik v. map_of (index s) ik = Some v \<longrightarrow> snd (keyOrder ik) = v)
      \<and> (\<forall>k ev. data s k = Some ev \<longrightarrow> (\<forall>pk \<in> set (parents (meta ev)). data s pk \<noteq> None))
      \<and> (\<forall>k. (map_of (index s) (HeadKey k) \<noteq> None)
              = (data s k \<noteq> None \<and> \<not> hasDependent (data s) k)))"



definition queryScope :: "EventStoreQueryOptions \<Rightarrow> Scope" where
  "queryScope opts =
     (case rootFilter opts of
        Some r \<Rightarrow> RootScope r
      | None \<Rightarrow> (case typeFilter opts of Some ty \<Rightarrow> TypeScope ty | None \<Rightarrow> GlobalScope))"




section \<open>Auxiliary facts\<close>

lemma orZero_simps: "orZero None = 0" "orZero (Some n) = n"
  by (simp_all add: orZero_def)

lemma resolveParents_eq:
  "resolveParents xs (ps, lt, ms) =
     (ps @ concat (map (\<lambda>(k, p). case p of Some e \<Rightarrow> [(k, e)] | None \<Rightarrow> []) xs),
      fold (\<lambda>(k, p) a. case p of Some e \<Rightarrow> max a (addOne (orZero (createdAt (meta e)))) | None \<Rightarrow> a) xs lt,
      ms @ concat (map (\<lambda>(k, p). case p of Some e \<Rightarrow> [] | None \<Rightarrow> [k]) xs))"
  by (induction xs arbitrary: ps lt ms) (auto split: option.splits)

lemma missing_zip:
  "concat (map (\<lambda>(k, p). case p of Some e \<Rightarrow> [] | None \<Rightarrow> [k]) (zip ks (map m ks)))
     = filter (\<lambda>k. m k = None) ks"
  by (induction ks) (auto split: option.splits)

lemma resolved_zip:
  "concat (map (\<lambda>(k, p). case p of Some e \<Rightarrow> [(k, e)] | None \<Rightarrow> []) (zip ks (map m ks)))
     = map (\<lambda>k. (k, the (m k))) (filter (\<lambda>k. m k \<noteq> None) ks)"
  by (induction ks) (auto split: option.splits)

lemma latest_zip:
  "fold (\<lambda>(k, p) a. case p of Some e \<Rightarrow> max a (addOne (orZero (createdAt (meta e)))) | None \<Rightarrow> a)
        (zip ks (map m ks)) lt
   = fold max (map (\<lambda>p. addOne (orZero (createdAt (meta p)))) (List.map_filter m ks)) lt"
  by (induction ks arbitrary: lt) (auto simp: max.commute split: option.splits)

lemma resolveParents_getMany:
  "resolveParents (zip (parents (meta e)) (getMany m (parents (meta e)))) ([], orZero (createdAt (meta e)), []) =
     (map (\<lambda>k. (k, the (m k))) (filter (\<lambda>k. m k \<noteq> None) (parents (meta e))),
      referenceTime m e,
      filter (\<lambda>k. m k = None) (parents (meta e)))"
  by (simp add: resolveParents_eq getMany_def missing_zip resolved_zip latest_zip referenceTime_def
        Max.set_eq_fold del: set_simps)

lemma referenceTime_no_parents:
  "parents (meta e) = [] \<Longrightarrow> referenceTime m e = orZero (createdAt (meta e))"
  by (simp add: referenceTime_def List.map_filter_simps)

lemma put_invalid:
  "root (meta e) = None \<Longrightarrow> parents (meta e) \<noteq> [] \<Longrightarrow>
   put c e s = \<lparr>result = Inl (operationError ''Missing root Id'' InvalidArg None None),
                event = e, store = s, trace = []\<rparr>"
  by (simp add: put_def)

lemma put_missing:
  assumes "\<not> (root (meta e) = None \<and> parents (meta e) \<noteq> [])"
    and "\<exists>k \<in> set (parents (meta e)). data s k = None"
  shows "put c e s =
     \<lparr>result = Inl (operationError ''Missing dependencies'' MissingDep
                      (Some (filter (\<lambda>k. data s k = None) (parents (meta e)))) None),
      event = e, store = s, trace = []\<rparr>"
proof -
  from assms(2) have ne: "parents (meta e) \<noteq> []" by auto
  from assms(2) have m: "filter (\<lambda>k. data s k = None) (parents (meta e)) \<noteq> []"
    by (simp add: filter_empty_conv)
  show ?thesis using assms(1) ne m
    by (auto simp: put_def resolveParents_getMany)
qed

lemma put_resolved:
  assumes "\<not> (root (meta e) = None \<and> parents (meta e) \<noteq> [])"
    and "\<forall>k \<in> set (parents (meta e)). data s k \<noteq> None"
  shows "put c e s =
     (case tick c (referenceTime (data s) e) (clock s) of
        (t, cl) \<Rightarrow>
          (case hashError c (stamp e t) of
             Some err \<Rightarrow>
               \<lparr>result = Inl err, event = stamp e t, store = s\<lparr>clock := cl\<rparr>, trace = []\<rparr>
           | None \<Rightarrow>
               if data s (hash c (stamp e t)) \<noteq> None
               then \<lparr>result = Inr (hash c (stamp e t)), event = stamp e t,
                     store = s\<lparr>clock := cl\<rparr>, trace = []\<rparr>
               else writePhases c (hash c (stamp e t)) (stamp e t)
                      (map (\<lambda>k. (k, the (data s k))) (parents (meta e))) (s\<lparr>clock := cl\<rparr>)))"
proof -
  from assms(2) have m: "filter (\<lambda>k. data s k = None) (parents (meta e)) = []"
    by (simp add: filter_empty_conv)
  from assms(2) have r: "filter (\<lambda>k. data s k \<noteq> None) (parents (meta e)) = parents (meta e)"
    by (simp add: filter_id_conv)
  show ?thesis
  proof (cases "parents (meta e) = []")
    case True
    then show ?thesis
      by (simp add: put_def referenceTime_no_parents Let_def split: prod.splits option.splits)
  next
    case False
    then show ?thesis using assms(1) m r
      by (auto simp: put_def resolveParents_getMany Let_def split: prod.splits option.splits)
  qed
qed

lemma put_keyed:
  assumes "\<not> (root (meta e) = None \<and> parents (meta e) \<noteq> [])"
    and "\<forall>k \<in> set (parents (meta e)). data s k \<noteq> None"
    and "tick c (referenceTime (data s) e) (clock s) = (t, cl)"
    and "hashError c (stamp e t) = None"
  shows "put c e s =
     (if data s (hash c (stamp e t)) \<noteq> None
      then \<lparr>result = Inr (hash c (stamp e t)), event = stamp e t,
            store = s\<lparr>clock := cl\<rparr>, trace = []\<rparr>
      else writePhases c (hash c (stamp e t)) (stamp e t)
             (map (\<lambda>k. (k, the (data s k))) (parents (meta e))) (s\<lparr>clock := cl\<rparr>))"
  unfolding put_resolved[OF assms(1,2)] using assms(3,4) by simp

lemma put_unkeyed:
  assumes "\<not> (root (meta e) = None \<and> parents (meta e) \<noteq> [])"
    and "\<forall>k \<in> set (parents (meta e)). data s k \<noteq> None"
    and "tick c (referenceTime (data s) e) (clock s) = (t, cl)"
    and "hashError c (stamp e t) = Some err"
  shows "put c e s =
     \<lparr>result = Inl err, event = stamp e t, store = s\<lparr>clock := cl\<rparr>, trace = []\<rparr>"
  unfolding put_resolved[OF assms(1,2)] using assms(3,4) by simp


lemma setIndices_eq:
  "setIndices c (map (\<lambda>k. (k, v)) ks) idx tr =
     (case find (\<lambda>k. setError c k \<noteq> None) ks of
        None \<Rightarrow> None
      | Some k \<Rightarrow>
          Some (if hasSetMany c
                then operationError ''Failed to save indices'' OpFailed None (setError c k)
                else the (setError c k)),
      fold (\<lambda>k. AList.update k v) (takeWhile (\<lambda>k. setError c k = None) ks) idx,
      tr @ map (\<lambda>k. IndexSet k v) (takeWhile (\<lambda>k. setError c k = None) ks))"
  by (induction ks arbitrary: idx tr) (auto split: option.splits)

lemma deleteIndices_eq:
  "deleteIndices c ks idx tr =
     (case find (\<lambda>k. deleteError c k \<noteq> None) ks of
        None \<Rightarrow> None
      | Some k \<Rightarrow>
          Some (if hasDeleteMany c
                then operationError ''Failed to delete old indices'' OpFailed None (deleteError c k)
                else the (deleteError c k)),
      fold AList.delete (takeWhile (\<lambda>k. deleteError c k = None) ks) idx,
      tr @ map IndexDelete (takeWhile (\<lambda>k. deleteError c k = None) ks))"
  by (induction ks arbitrary: idx tr) (auto split: option.splits)

lemma writePhases_eq:
  "writePhases c key e ps s =
     (let ks = getEventIndexKeys c key e False;
          hs = concat (map (\<lambda>(k, p). getEventIndexKeys c k p True) ps);
          W = takeWhile (\<lambda>k. setError c k = None) ks;
          D = takeWhile (\<lambda>k. deleteError c k = None) hs;
          idx1 = fold (\<lambda>k. AList.update k key) W (index s)
      in case find (\<lambda>k. setError c k \<noteq> None) ks of
           Some k \<Rightarrow>
             \<lparr>result = Inl (if hasSetMany c
                            then operationError ''Failed to save indices'' OpFailed None (setError c k)
                            else the (setError c k)),
              event = e, store = s\<lparr>index := idx1\<rparr>, trace = map (\<lambda>k. IndexSet k key) W\<rparr>
         | None \<Rightarrow>
             (case putError c e of
                Some err \<Rightarrow>
                  \<lparr>result = Inl err, event = e, store = s\<lparr>index := idx1\<rparr>,
                   trace = map (\<lambda>k. IndexSet k key) W\<rparr>
              | None \<Rightarrow>
                  \<lparr>result =
                     (case find (\<lambda>k. deleteError c k \<noteq> None) hs of
                        Some k \<Rightarrow>
                          Inl (if hasDeleteMany c
                               then operationError ''Failed to delete old indices'' OpFailed None
                                      (deleteError c k)
                               else the (deleteError c k))
                      | None \<Rightarrow> Inr key),
                   event = e,
                   store = s\<lparr>data := (data s)(hash c e \<mapsto> e), index := fold AList.delete D idx1\<rparr>,
                   trace = map (\<lambda>k. IndexSet k key) W @ DataPut (hash c e) e # map IndexDelete D\<rparr>))"
  by (cases "ps = []")
     (auto simp: writePhases_def setIndices_eq deleteIndices_eq Let_def split: option.splits)

lemma stamp_fields:
  "payload (stamp e t) = payload e" "parents (meta (stamp e t)) = parents (meta e)"
  "root (meta (stamp e t)) = root (meta e)" "type (meta (stamp e t)) = type (meta e)"
  "createdAt (meta (stamp e t)) = Some t"
  by (simp_all add: stamp_def)

lemma stamp_stamp: "stamp (stamp e t) u = stamp e u"
  by (simp add: stamp_def)

lemma writePhases_event: "event (writePhases c key e ps s) = e"
  by (simp add: writePhases_eq Let_def split: option.splits)

lemma writePhases_sets:
  "IndexSet k v \<in> set (trace (writePhases c key e ps s)) \<Longrightarrow> v = key"
  by (auto simp: writePhases_eq Let_def split: option.splits dest: set_takeWhileD)

lemma writePhases_result:
  "result (writePhases c key e ps s) = Inr k' \<Longrightarrow>
     k' = key \<and> data (store (writePhases c key e ps s)) = (data s)(hash c e \<mapsto> e)"
  by (auto simp: writePhases_eq Let_def split: option.splits)

lemma writePhases_data:
  "data (store (writePhases c key e ps s)) = data s \<or>
   data (store (writePhases c key e ps s)) = (data s)(hash c e \<mapsto> e)"
  by (auto simp: writePhases_eq Let_def split: option.splits)

lemma put_event:
  assumes "\<not> (root (meta e) = None \<and> parents (meta e) \<noteq> [])"
    and "\<forall>k \<in> set (parents (meta e)). data s k \<noteq> None"
  shows "event (put c e s) = stamp e (fst (tick c (referenceTime (data s) e) (clock s)))"
  by (simp add: put_resolved[OF assms] writePhases_event split: prod.splits option.splits)

lemma put_result_key:
  assumes "result (put c e s) = Inr key"
  shows "key = hash c (event (put c e s))"
proof (cases "root (meta e) = None \<and> parents (meta e) \<noteq> []")
  case True
  with assms show ?thesis by (simp add: put_invalid)
next
  case valid: False
  show ?thesis
  proof (cases "\<forall>k \<in> set (parents (meta e)). data s k \<noteq> None")
    case True
    with assms valid show ?thesis
      by (auto simp: put_resolved writePhases_event split: prod.splits if_splits option.splits
            dest: writePhases_result)
  next
    case False
    with assms valid show ?thesis by (simp add: put_missing)
  qed
qed

lemma put_trace_sets:
  assumes "IndexSet k v \<in> set (trace (put c e s))"
  shows "v = hash c (event (put c e s))"
proof (cases "root (meta e) = None \<and> parents (meta e) \<noteq> []")
  case True
  with assms show ?thesis by (simp add: put_invalid)
next
  case valid: False
  show ?thesis
  proof (cases "\<forall>k \<in> set (parents (meta e)). data s k \<noteq> None")
    case True
    with assms valid show ?thesis
      by (auto simp: put_resolved writePhases_event split: prod.splits if_splits option.splits
            dest: writePhases_sets)
  next
    case False
    with assms valid show ?thesis by (simp add: put_missing)
  qed
qed


lemma put_success:
  assumes "result (put c e s) = Inr key"
  shows "\<not> (root (meta e) = None \<and> parents (meta e) \<noteq> [])
       \<and> (\<forall>k \<in> set (parents (meta e)). data s k \<noteq> None)"
proof (cases "root (meta e) = None \<and> parents (meta e) \<noteq> []")
  case True
  with assms show ?thesis by (simp add: put_invalid)
next
  case valid: False
  show ?thesis
  proof (cases "\<forall>k \<in> set (parents (meta e)). data s k \<noteq> None")
    case True
    with valid show ?thesis by simp
  next
    case False
    with assms valid show ?thesis by (simp add: put_missing)
  qed
qed

lemma put_success_keyed:
  assumes "result (put c e s) = Inr key"
  shows "hashError c (event (put c e s)) = None"
proof -
  from put_success[OF assms] have valid: "\<not> (root (meta e) = None \<and> parents (meta e) \<noteq> [])"
    and res: "\<forall>k \<in> set (parents (meta e)). data s k \<noteq> None" by simp_all
  obtain t cl where tk: "tick c (referenceTime (data s) e) (clock s) = (t, cl)"
    by (cases "tick c (referenceTime (data s) e) (clock s)")
  have ev: "event (put c e s) = stamp e t" using put_event[OF valid res, of c] tk by simp
  show ?thesis
  proof (cases "hashError c (stamp e t)")
    case None
    then show ?thesis by (simp add: ev)
  next
    case (Some err)
    from assms show ?thesis by (simp add: put_unkeyed[OF valid res tk Some])
  qed
qed

lemma put_data_cases:
  "data (store (put c e s)) = data s \<or>
   (\<not> (root (meta e) = None \<and> parents (meta e) \<noteq> [])
    \<and> (\<forall>k \<in> set (parents (meta e)). data s k \<noteq> None)
    \<and> data s (hash c (event (put c e s))) = None
    \<and> data (store (put c e s)) = (data s)(hash c (event (put c e s)) \<mapsto> event (put c e s)))"
proof (cases "root (meta e) = None \<and> parents (meta e) \<noteq> []")
  case True
  then show ?thesis by (simp add: put_invalid)
next
  case valid: False
  show ?thesis
  proof (cases "\<forall>k \<in> set (parents (meta e)). data s k \<noteq> None")
    case True
    obtain t cl where tk: "tick c (referenceTime (data s) e) (clock s) = (t, cl)"
      by (cases "tick c (referenceTime (data s) e) (clock s)")
    show ?thesis
    proof (cases "hashError c (stamp e t)")
      case (Some err)
      show ?thesis by (simp add: put_unkeyed[OF valid True tk Some])
    next
      case hk: None
      show ?thesis
      proof (cases "data s (hash c (stamp e t)) = None")
        case new: True
        have p: "put c e s = writePhases c (hash c (stamp e t)) (stamp e t)
                   (map (\<lambda>k. (k, the (data s k))) (parents (meta e))) (s\<lparr>clock := cl\<rparr>)"
          using new by (simp add: put_keyed[OF valid True tk hk])
        have "data (store (put c e s)) = data s \<or>
              data (store (put c e s)) = (data s)(hash c (stamp e t) \<mapsto> stamp e t)"
          unfolding p
          using writePhases_data[of c "hash c (stamp e t)" "stamp e t" _ "s\<lparr>clock := cl\<rparr>"]
          by simp
        moreover have "event (put c e s) = stamp e t" by (simp add: p writePhases_event)
        ultimately show ?thesis using valid True new by auto
      next
        case False
        then show ?thesis by (simp add: put_keyed[OF valid True tk hk])
      qed
    qed
  next
    case False
    with valid show ?thesis by (simp add: put_missing)
  qed
qed

lemma put_success_stored:
  assumes "result (put c e s) = Inr key"
  shows "data (store (put c e s)) key \<noteq> None"
proof -
  from put_success[OF assms] have valid: "\<not> (root (meta e) = None \<and> parents (meta e) \<noteq> [])"
    and res: "\<forall>k \<in> set (parents (meta e)). data s k \<noteq> None" by simp_all
  obtain t cl where tk: "tick c (referenceTime (data s) e) (clock s) = (t, cl)"
    by (cases "tick c (referenceTime (data s) e) (clock s)")
  have ev: "event (put c e s) = stamp e t" using put_event[OF valid res, of c] tk by simp
  from put_success_keyed[OF assms] have hk: "hashError c (stamp e t) = None" by (simp add: ev)
  show ?thesis
  proof (cases "data s (hash c (stamp e t)) = None")
    case True
    then have p: "put c e s = writePhases c (hash c (stamp e t)) (stamp e t)
                 (map (\<lambda>k. (k, the (data s k))) (parents (meta e))) (s\<lparr>clock := cl\<rparr>)"
      by (simp add: put_keyed[OF valid res tk hk])
    from assms writePhases_result[of c "hash c (stamp e t)" "stamp e t" _ "s\<lparr>clock := cl\<rparr>" key]
    show ?thesis unfolding p by simp
  next
    case False
    with assms show ?thesis by (auto simp: put_keyed[OF valid res tk hk])
  qed
qed

lemma put_data_mono: "data s k \<noteq> None \<Longrightarrow> data (store (put c e s)) k \<noteq> None"
  using put_data_cases[of c e s] by (auto simp: fun_upd_def)

lemma put_duplicate:
  assumes "\<not> (root (meta e) = None \<and> parents (meta e) \<noteq> [])"
    and "\<forall>k \<in> set (parents (meta e)). data s k \<noteq> None"
    and "hashError c (event (put c e s)) = None"
    and "data s (hash c (event (put c e s))) \<noteq> None"
  shows "result (put c e s) = Inr (hash c (event (put c e s)))
       \<and> index (store (put c e s)) = index s \<and> data (store (put c e s)) = data s
       \<and> trace (put c e s) = []"
proof -
  obtain t cl where tk: "tick c (referenceTime (data s) e) (clock s) = (t, cl)"
    by (cases "tick c (referenceTime (data s) e) (clock s)")
  have ev: "event (put c e s) = stamp e t" using put_event[OF assms(1,2), of c] tk by simp
  from assms(3) have hk: "hashError c (stamp e t) = None" by (simp add: ev)
  from assms(4) have "data s (hash c (stamp e t)) \<noteq> None" by (simp add: ev)
  then show ?thesis by (simp add: put_keyed[OF assms(1,2) tk hk])
qed

lemma addOne_ge: "t \<le> addOne t"
  by (simp add: addOne_def)

lemma addOne_exact: "- (2 ^ 53) \<le> t \<Longrightarrow> t < 2 ^ 53 \<Longrightarrow> addOne t = t + 1"
  by (simp add: addOne_def)

lemma referenceTime_ge_parent:
  assumes "k \<in> set (parents (meta e))" and "m k = Some p"
  shows "addOne (orZero (createdAt (meta p))) \<le> referenceTime m e"
proof -
  from assms have "p \<in> set (List.map_filter m (parents (meta e)))"
    by (force simp: List.map_filter_def)
  then have "addOne (orZero (createdAt (meta p)))
      \<in> set (orZero (createdAt (meta e))
               # map (\<lambda>p. addOne (orZero (createdAt (meta p)))) (List.map_filter m (parents (meta e))))"
    by auto
  then show ?thesis unfolding referenceTime_def by (intro Max_ge) auto
qed

lemma storeAfter_Cons: "storeAfter c (v # vs) s = storeAfter c vs (store (put c v s))"
  by (simp add: storeAfter_def)

lemma putMany_keyed:
  assumes "\<forall>i < length vs. hashError c (event (put c (vs ! i) (storeAfter c (take i vs) s))) = None"
  shows "putMany c vs s =
     (map (\<lambda>i. case result (put c (vs ! i) (storeAfter c (take i vs) s)) of
                 Inr key \<Rightarrow> (key, None)
               | Inl err \<Rightarrow>
                   (hash c (event (put c (vs ! i) (storeAfter c (take i vs) s))),
                    Some (if code err = Some MissingDep then err
                          else operationError ''Failed to put'' OpFailed
                                 (Some [hash c (event (put c (vs ! i) (storeAfter c (take i vs) s)))])
                                 (Some err))))
          [0 ..< length vs],
      storeAfter c vs s, None)"
  using assms
proof (induction vs arbitrary: s)
  case Nil
  then show ?case by (simp add: storeAfter_def)
next
  case (Cons v vs)
  from Cons.prems have h0: "hashError c (event (put c v s)) = None"
    by (auto simp: storeAfter_def)
  have "\<forall>i < length vs.
          hashError c (event (put c (vs ! i) (storeAfter c (take i vs) (store (put c v s))))) = None"
  proof (intro allI impI)
    fix i assume "i < length vs"
    then have "Suc i < length (v # vs)" by simp
    with Cons.prems
    have "hashError c (event (put c ((v # vs) ! Suc i) (storeAfter c (take (Suc i) (v # vs)) s))) = None"
      by blast
    then show "hashError c (event (put c (vs ! i) (storeAfter c (take i vs) (store (put c v s))))) = None"
      by (simp add: storeAfter_Cons)
  qed
  from Cons.IH[OF this] h0 show ?case
    by (simp add: putItem_def Let_def storeAfter_Cons upt_conv_Cons map_Suc_upt[symmetric]
          del: upt_Suc split: sum.splits)
       (simp add: storeAfter_def)
qed

lemma putMany_abort:
  assumes "result (put c v s) = Inl err" and "hashError c (event (put c v s)) = Some herr"
  shows "putMany c (v # vs) s = ([], store (put c v s), Some herr)"
  using assms by (simp add: putItem_def Let_def)

lemma bufferPages_concat: "concat (bufferPages ks buffer) = buffer @ ks"
  by (induction ks arbitrary: buffer) simp_all

lemma bufferPages_bound:
  "length buffer < PAGE_SIZE \<Longrightarrow> page \<in> set (bufferPages ks buffer) \<Longrightarrow>
   page \<noteq> [] \<and> length page \<le> PAGE_SIZE"
proof (induction ks arbitrary: buffer)
  case Nil
  then show ?case by (auto split: if_splits)
next
  case (Cons k ks)
  show ?case
  proof (cases "length (buffer @ [k]) \<ge> PAGE_SIZE")
    case True
    with Cons.prems have "page = buffer @ [k] \<or> page \<in> set (bufferPages ks [])" by simp
    then show ?thesis
    proof
      assume "page = buffer @ [k]"
      with Cons.prems(1) show ?thesis by simp
    next
      assume "page \<in> set (bufferPages ks [])"
      with Cons.IH[of "[]"] show ?thesis by (simp add: PAGE_SIZE_def)
    qed
  next
    case False
    with Cons.prems have "page \<in> set (bufferPages ks (buffer @ [k]))" by simp
    with Cons.IH[of "buffer @ [k]"] False show ?thesis by simp
  qed
qed

lemma entriesFromKeys_fst:
  "fst (entriesFromKeys m ks) =
     concat (map (\<lambda>k. case m k of Some e \<Rightarrow> [(k, e)] | None \<Rightarrow> []) ks)"
  by (induction ks) (simp_all add: entriesFromKeys_def getMany_def Let_def)

lemma fold_update_distinct:
  "distinct (map fst idx) \<Longrightarrow> distinct (map fst (fold (\<lambda>k. AList.update k v) ks idx))"
  by (induction ks arbitrary: idx) (simp_all add: distinct_update)

lemma fold_update_map_of:
  "map_of (fold (\<lambda>k. AList.update k v) ks idx) ik
     = (if ik \<in> set ks then Some v else map_of idx ik)"
  by (induction ks arbitrary: idx) (auto simp: update_conv')

lemma fold_delete_distinct:
  "distinct (map fst idx) \<Longrightarrow> distinct (map fst (fold AList.delete ks idx))"
  by (induction ks arbitrary: idx) (simp_all add: distinct_delete)

lemma fold_delete_map_of:
  "map_of (fold AList.delete ks idx) ik = (if ik \<in> set ks then None else map_of idx ik)"
  by (induction ks arbitrary: idx) (auto simp: delete_conv')

lemma writePhases_reliable:
  assumes rel: "reliable c"
  shows "store (writePhases c key e ps s) =
     s\<lparr>data := (data s)(hash c e \<mapsto> e),
       index := fold AList.delete (concat (map (\<lambda>(k, p). getEventIndexKeys c k p True) ps))
                  (fold (\<lambda>k. AList.update k key) (getEventIndexKeys c key e False) (index s))\<rparr>"
proof -
  from rel have se: "\<And>k. setError c k = None" and de: "\<And>k. deleteError c k = None"
    and pe: "\<And>e. putError c e = None"
    by (simp_all add: reliable_def)
  have f: "find (\<lambda>k. setError c k \<noteq> None) ks = None"
    "find (\<lambda>k. deleteError c k \<noteq> None) hs = None"
    "takeWhile (\<lambda>k. setError c k = None) ks = ks"
    "takeWhile (\<lambda>k. deleteError c k = None) hs = hs" for ks hs
    by (simp_all add: se de find_None_iff)
  show ?thesis
    unfolding writePhases_eq Let_def f pe by simp
qed

lemma put_reliable_cases:
  assumes rel: "reliable c"
  shows "store (put c e s) = s
    \<or> (\<exists>t cl. tick c (referenceTime (data s) e) (clock s) = (t, cl)
          \<and> \<not> (root (meta e) = None \<and> parents (meta e) \<noteq> [])
          \<and> (\<forall>k \<in> set (parents (meta e)). data s k \<noteq> None)
          \<and> (store (put c e s) = s\<lparr>clock := cl\<rparr>
             \<or> data s (hash c (stamp e t)) = None
               \<and> store (put c e s) =
                   s\<lparr>clock := cl, data := (data s)(hash c (stamp e t) \<mapsto> stamp e t),
                    index := fold AList.delete
                              (concat (map (\<lambda>k. getEventIndexKeys c k (the (data s k)) True)
                                           (parents (meta e))))
                              (fold (\<lambda>k. AList.update k (hash c (stamp e t)))
                                    (getEventIndexKeys c (hash c (stamp e t)) (stamp e t) False)
                                    (index s))\<rparr>))"
proof (cases "root (meta e) = None \<and> parents (meta e) \<noteq> []")
  case True
  then show ?thesis by (simp add: put_invalid)
next
  case valid: False
  show ?thesis
  proof (cases "\<forall>k \<in> set (parents (meta e)). data s k \<noteq> None")
    case res: True
    obtain t cl where tk: "tick c (referenceTime (data s) e) (clock s) = (t, cl)"
      by (cases "tick c (referenceTime (data s) e) (clock s)")
    have hs: "concat (map (\<lambda>(k, p). getEventIndexKeys c k p True)
                    (map (\<lambda>k. (k, the (data s k))) (parents (meta e))))
       = concat (map (\<lambda>k. getEventIndexKeys c k (the (data s k)) True) (parents (meta e)))"
      by (simp add: comp_def)
    show ?thesis
    proof (cases "hashError c (stamp e t) = None \<and> data s (hash c (stamp e t)) = None")
      case True
      then have "store (put c e s) =
                   s\<lparr>clock := cl, data := (data s)(hash c (stamp e t) \<mapsto> stamp e t),
                    index := fold AList.delete
                              (concat (map (\<lambda>k. getEventIndexKeys c k (the (data s k)) True)
                                           (parents (meta e))))
                              (fold (\<lambda>k. AList.update k (hash c (stamp e t)))
                                    (getEventIndexKeys c (hash c (stamp e t)) (stamp e t) False)
                                    (index s))\<rparr>"
        by (simp add: put_resolved[OF valid res] tk writePhases_reliable[OF rel] comp_def)
      with valid res tk True show ?thesis by blast
    next
      case False
      then have "store (put c e s) = s\<lparr>clock := cl\<rparr>"
        by (auto simp: put_resolved[OF valid res] tk split: option.splits)
      with valid res tk show ?thesis by blast
    qed
  next
    case False
    with valid show ?thesis by (simp add: put_missing)
  qed
qed

lemma deriveKeys_head: "deriveKeys sep key e True = [HeadKey key]"
  by (simp add: deriveKeys_def)

lemma deriveKeys_heads_of_parents:
  "concat (map (\<lambda>k. deriveKeys sep k (f k) True) ps) = map HeadKey ps"
  by (induction ps) (simp_all add: deriveKeys_head)

lemma deriveKeys_HeadKey: "HeadKey k \<in> set (deriveKeys sep key e False) \<longleftrightarrow> k = key"
  by (auto simp: deriveKeys_def Let_def)

lemma deriveKeys_id: "ik \<in> set (deriveKeys sep key e False) \<Longrightarrow> snd (keyOrder ik) = key"
  by (auto simp: deriveKeys_def Let_def)

lemma hasDependent_upd:
  "m key = None \<Longrightarrow>
   hasDependent (m(key \<mapsto> e1)) k \<longleftrightarrow> k \<in> set (parents (meta e1)) \<or> hasDependent m k"
proof
  assume "hasDependent (m(key \<mapsto> e1)) k"
  then obtain k' ev where h: "(m(key \<mapsto> e1)) k' = Some ev" "k \<in> set (parents (meta ev))"
    unfolding hasDependent_def by blast
  show "k \<in> set (parents (meta e1)) \<or> hasDependent m k"
  proof (cases "k' = key")
    case True
    with h show ?thesis by simp
  next
    case False
    with h have "m k' = Some ev" by simp
    with h(2) show ?thesis unfolding hasDependent_def by blast
  qed
next
  assume m: "m key = None"
  assume "k \<in> set (parents (meta e1)) \<or> hasDependent m k"
  then show "hasDependent (m(key \<mapsto> e1)) k"
  proof
    assume "k \<in> set (parents (meta e1))"
    then have "(m(key \<mapsto> e1)) key = Some e1 \<and> k \<in> set (parents (meta e1))" by simp
    then show ?thesis unfolding hasDependent_def by blast
  next
    assume "hasDependent m k"
    then obtain k' ev where h: "m k' = Some ev" "k \<in> set (parents (meta ev))"
      unfolding hasDependent_def by blast
    with m have "k' \<noteq> key" by auto
    with h have "(m(key \<mapsto> e1)) k' = Some ev \<and> k \<in> set (parents (meta ev))" by simp
    then show ?thesis unfolding hasDependent_def by blast
  qed
qed

lemma headsConsistent_cong:
  "index s' = index s \<Longrightarrow> data s' = data s \<Longrightarrow> headsConsistent s' = headsConsistent s"
  by (simp only: headsConsistent_def)

lemma headsConsistentI:
  assumes "distinct (map fst (index s))"
    and "\<And>ik v. map_of (index s) ik = Some v \<Longrightarrow> snd (keyOrder ik) = v"
    and "\<And>k ev pk. data s k = Some ev \<Longrightarrow> pk \<in> set (parents (meta ev)) \<Longrightarrow> data s pk \<noteq> None"
    and "\<And>k. (map_of (index s) (HeadKey k) \<noteq> None)
              = (data s k \<noteq> None \<and> \<not> hasDependent (data s) k)"
  shows "headsConsistent s"
  unfolding headsConsistent_def using assms by blast

lemma headsConsistent_put:
  assumes rel: "reliable c" and gk: "getEventIndexKeys c = deriveKeys sep"
    and inv: "headsConsistent s"
  shows "headsConsistent (store (put c e s))"
proof -
  from inv have dist: "distinct (map fst (index s))"
    and ids: "\<And>ik v. map_of (index s) ik = Some v \<Longrightarrow> snd (keyOrder ik) = v"
    and closed: "\<And>k ev pk. data s k = Some ev \<Longrightarrow> pk \<in> set (parents (meta ev)) \<Longrightarrow> data s pk \<noteq> None"
    and heads: "\<And>k. (map_of (index s) (HeadKey k) \<noteq> None)
              = (data s k \<noteq> None \<and> \<not> hasDependent (data s) k)"
    unfolding headsConsistent_def by blast+
  from put_reliable_cases[OF rel, of e s]
  consider (same) "store (put c e s) = s"
    | (dup) cl where "store (put c e s) = s\<lparr>clock := cl\<rparr>"
    | (new) t cl where "\<forall>k \<in> set (parents (meta e)). data s k \<noteq> None"
        "data s (hash c (stamp e t)) = None"
        "store (put c e s) =
           s\<lparr>clock := cl, data := (data s)(hash c (stamp e t) \<mapsto> stamp e t),
             index := fold AList.delete
                        (concat (map (\<lambda>k. getEventIndexKeys c k (the (data s k)) True)
                                     (parents (meta e))))
                        (fold (\<lambda>k. AList.update k (hash c (stamp e t)))
                              (getEventIndexKeys c (hash c (stamp e t)) (stamp e t) False)
                              (index s))\<rparr>"
    by blast
  then show ?thesis
  proof cases
    case same
    with inv show ?thesis by simp
  next
    case dup
    have "headsConsistent (s\<lparr>clock := cl\<rparr>) = headsConsistent s"
      by (rule headsConsistent_cong) simp_all
    with inv dup show ?thesis by simp
  next
    case new
    let ?key = "hash c (stamp e t)"
    let ?e1 = "stamp e t"
    let ?ps = "parents (meta e)"
    let ?idx = "fold AList.delete (map HeadKey ?ps)
                  (fold (\<lambda>k. AList.update k ?key) (deriveKeys sep ?key ?e1 False) (index s))"
    have st: "store (put c e s) = s\<lparr>clock := cl, data := (data s)(?key \<mapsto> ?e1), index := ?idx\<rparr>"
      using new(3) by (simp add: gk deriveKeys_heads_of_parents)
    have mo: "map_of ?idx ik =
        (if ik \<in> HeadKey ` set ?ps then None
         else if ik \<in> set (deriveKeys sep ?key ?e1 False) then Some ?key
         else map_of (index s) ik)" for ik
      by (simp add: fold_delete_map_of fold_update_map_of)
    have knp: "?key \<notin> set ?ps" using new(1,2) by auto
    have nodep: "\<not> hasDependent (data s) ?key"
      unfolding hasDependent_def using closed new(2) by blast
    have c1: "distinct (map fst ?idx)"
      by (intro fold_delete_distinct fold_update_distinct dist)
    have c2: "snd (keyOrder ik) = v" if "map_of ?idx ik = Some v" for ik v
      using that ids deriveKeys_id[of ik sep ?key ?e1] by (auto simp: mo split: if_splits)
    have c3: "((data s)(?key \<mapsto> ?e1)) pk \<noteq> None"
      if "((data s)(?key \<mapsto> ?e1)) k = Some ev" "pk \<in> set (parents (meta ev))" for k ev pk
    proof (cases "k = ?key")
      case True
      with that have "pk \<in> set ?ps" by (auto simp: stamp_fields)
      with new(1) show ?thesis by auto
    next
      case False
      with that closed[of k ev pk] show ?thesis by auto
    qed
    have hd: "hasDependent ((data s)(?key \<mapsto> ?e1)) k
         \<longleftrightarrow> k \<in> set (parents (meta ?e1)) \<or> hasDependent (data s) k" for k
      using new(2) by (rule hasDependent_upd)
    have c4: "(map_of ?idx (HeadKey k) \<noteq> None)
        = (((data s)(?key \<mapsto> ?e1)) k \<noteq> None \<and> \<not> hasDependent ((data s)(?key \<mapsto> ?e1)) k)" for k
    proof (cases "k = ?key")
      case True
      then show ?thesis using knp nodep
        by (auto simp: mo hd stamp_fields deriveKeys_HeadKey)
    next
      case False
      then show ?thesis using heads[of k]
        by (auto simp: mo hd stamp_fields deriveKeys_HeadKey)
    qed
    have d: "data (store (put c e s)) = (data s)(?key \<mapsto> ?e1)"
      and i: "index (store (put c e s)) = ?idx"
      by (simp_all add: st)
    show ?thesis
    proof (rule headsConsistentI)
      show "distinct (map fst (index (store (put c e s))))" unfolding i by (rule c1)
      show "snd (keyOrder ik) = v" if "map_of (index (store (put c e s))) ik = Some v" for ik v
        using that unfolding i by (rule c2)
      show "data (store (put c e s)) pk \<noteq> None"
        if "data (store (put c e s)) k = Some ev" "pk \<in> set (parents (meta ev))" for k ev pk
        using that unfolding d by (rule c3)
      show "(map_of (index (store (put c e s))) (HeadKey k) \<noteq> None)
              = (data (store (put c e s)) k \<noteq> None \<and> \<not> hasDependent (data (store (put c e s))) k)" for k
        unfolding i d by (rule c4)
    qed
  qed
qed

lemma headsConsistent_empty: "headsConsistent emptyStore"
  by (simp add: headsConsistent_def emptyStore_def hasDependent_def)

lemma headsConsistent_storeAfter:
  assumes "reliable c" and "getEventIndexKeys c = deriveKeys sep" and "headsConsistent s"
  shows "headsConsistent (storeAfter c es s)"
  using assms(3) unfolding storeAfter_def
  by (induction es arbitrary: s) (simp_all add: headsConsistent_put[OF assms(1,2)])

lemma keys_heads:
  assumes gr: "getEventIndexRangeQueryOptions c = deriveQueryRange" and iv: "indexValues c = rangeValues"
  shows "fst (keys c \<lparr>since = sn, typeFilter = tf, rootFilter = rf, head = Some True, limit = None\<rparr> s)
     = map snd (sort_key (\<lambda>kv. keyOrder (fst kv))
                 (filter (\<lambda>kv. keyScope (fst kv) = HeadScope) (index s)))"
  by (simp add: keys_def gr iv deriveQueryRange_def rangeValues_def Let_def)

lemma keyScope_Head: "keyScope ik = HeadScope \<longleftrightarrow> (\<exists>k. ik = HeadKey k)"
  by (cases ik) simp_all

lemma heads_query_set:
  assumes inv: "headsConsistent s"
  shows "set (map snd (sort_key (\<lambda>kv. keyOrder (fst kv))
                 (filter (\<lambda>kv. keyScope (fst kv) = HeadScope) (index s))))
       = {k. data s k \<noteq> None \<and> \<not> hasDependent (data s) k}" (is "?L = ?R")
proof -
  from inv have dist: "distinct (map fst (index s))"
    and ids: "\<And>ik v. map_of (index s) ik = Some v \<Longrightarrow> snd (keyOrder ik) = v"
    and heads: "\<And>k. (map_of (index s) (HeadKey k) \<noteq> None)
              = (data s k \<noteq> None \<and> \<not> hasDependent (data s) k)"
    unfolding headsConsistent_def by blast+
  have "k \<in> ?L \<longleftrightarrow> map_of (index s) (HeadKey k) \<noteq> None" for k
  proof
    assume "k \<in> ?L"
    then obtain ik where "(ik, k) \<in> set (index s)" "keyScope ik = HeadScope" by auto
    then obtain k' where k': "map_of (index s) (HeadKey k') = Some k"
      using dist by (auto simp: keyScope_Head)
    from ids[OF this] have "k' = k" by simp
    with k' show "map_of (index s) (HeadKey k) \<noteq> None" by simp
  next
    assume "map_of (index s) (HeadKey k) \<noteq> None"
    then obtain v where v: "map_of (index s) (HeadKey k) = Some v" by auto
    from ids[OF this] have "v = k" by simp
    with v have "(HeadKey k, k) \<in> set (index s)" by (auto dest: map_of_SomeD)
    then have "(HeadKey k, k) \<in> set (filter (\<lambda>kv. keyScope (fst kv) = HeadScope) (index s))"
      by simp
    then show "k \<in> ?L" by force
  qed
  with heads show ?thesis by blast
qed

lemma heads_query_distinct:
  assumes inv: "headsConsistent s"
  shows "distinct (map snd (sort_key (\<lambda>kv. keyOrder (fst kv))
                 (filter (\<lambda>kv. keyScope (fst kv) = HeadScope) (index s))))"
proof -
  from inv have dist: "distinct (map fst (index s))"
    and ids: "\<And>ik v. map_of (index s) ik = Some v \<Longrightarrow> snd (keyOrder ik) = v"
    unfolding headsConsistent_def by blast+
  let ?xs = "filter (\<lambda>kv. keyScope (fst kv) = HeadScope) (index s)"
  from dist have d: "distinct ?xs" by (simp add: distinct_map)
  have "inj_on snd (set ?xs)"
  proof (rule inj_onI)
    fix a b assume a: "a \<in> set ?xs" and b: "b \<in> set ?xs" and eq: "snd a = snd b"
    obtain ka va where [simp]: "a = (ka, va)" by (cases a)
    obtain kb vb where [simp]: "b = (kb, vb)" by (cases b)
    from a dist have ma: "map_of (index s) ka = Some va" by simp
    from b dist have mb: "map_of (index s) kb = Some vb" by simp
    from a obtain k1 where k1: "ka = HeadKey k1" by (auto simp: keyScope_Head)
    from b obtain k2 where k2: "kb = HeadKey k2" by (auto simp: keyScope_Head)
    from ids[OF ma] ids[OF mb] k1 k2 eq show "a = b" by simp
  qed
  with d show ?thesis by (simp add: distinct_map)
qed

lemma single_put_data:
  assumes "result (put c e s) = Inr key" and "data s key = None"
  shows "data (store (put c e s)) = (data s)(key \<mapsto> event (put c e s))
       \<and> parents (meta (event (put c e s))) = parents (meta e)"
proof -
  from put_success_stored[OF assms(1)] have st: "data (store (put c e s)) key \<noteq> None" .
  from put_success[OF assms(1)] have "event (put c e s)
      = stamp e (fst (tick c (referenceTime (data s) e) (clock s)))"
    by (intro put_event) simp_all
  then have p: "parents (meta (event (put c e s))) = parents (meta e)"
    by (simp add: stamp_fields)
  from put_result_key[OF assms(1)] have k: "key = hash c (event (put c e s))" .
  from put_data_cases[of c e s] st assms(2)
  have "data (store (put c e s)) = (data s)(hash c (event (put c e s)) \<mapsto> event (put c e s))"
    by auto
  with k p show ?thesis by simp
qed

lemma distinct_singleton: "distinct xs \<Longrightarrow> set xs = {a} \<Longrightarrow> xs = [a]"
proof (cases xs)
  case Nil
  assume "set xs = {a}"
  with Nil show ?thesis by simp
next
  case (Cons x ys)
  assume d: "distinct xs" and s: "set xs = {a}"
  from s Cons have "x = a" by auto
  moreover from d s Cons have "set ys \<subseteq> {a}" "a \<notin> set ys" using \<open>x = a\<close> by auto
  then have "ys = []" by (cases ys) auto
  ultimately show ?thesis using Cons by simp
qed



















lemma queryScope_update [simp]:
  "queryScope (opts\<lparr>since := sn\<rparr>) = queryScope opts"
  "queryScope (opts\<lparr>limit := lim\<rparr>) = queryScope opts"
  by (simp_all add: queryScope_def split: option.splits)










section \<open>The sample instance evaluated\<close>

lemmas sample_defs = sampleCollaborators_def sampleHash_def atomicHybridTime_def deriveKeys_def
  emptyStore_def mkEvent_def sampleRoot_def sampleChild_def stamp_def orZero_def
  operationError_def getMany_def addOne_def

lemma put_sampleRoot:
  "put sampleCollaborators sampleRoot emptyStore =
     \<lparr>result = Inr 101, event = stamp sampleRoot 1,
      store = \<lparr>data = [101 \<mapsto> stamp sampleRoot 1],
               index = [(GlobalKey 1 101, 101), (TypeKey ''a'' 1 101, 101),
                        (TypeKey ''a/b'' 1 101, 101), (RootKey 101 1 101, 101),
                        (HeadKey 101, 101)],
               clock = 1\<rparr>,
      trace = [IndexSet (GlobalKey 1 101) 101, IndexSet (TypeKey ''a'' 1 101) 101,
               IndexSet (TypeKey ''a/b'' 1 101) 101, IndexSet (RootKey 101 1 101) 101,
               IndexSet (HeadKey 101) 101, DataPut 101 (stamp sampleRoot 1)]\<rparr>"
  by (simp add: put_def writePhases_def sample_defs Let_def)

lemma sampleStore_eq:
  "sampleStore = \<lparr>data = [101 \<mapsto> stamp sampleRoot 1],
               index = [(GlobalKey 1 101, 101), (TypeKey ''a'' 1 101, 101),
                        (TypeKey ''a/b'' 1 101, 101), (RootKey 101 1 101, 101),
                        (HeadKey 101, 101)],
               clock = 1\<rparr>"
  by (simp add: sampleStore_def put_sampleRoot)

lemma put_sampleChild:
  "put sampleCollaborators sampleChild sampleStore =
     \<lparr>result = Inr 302, event = stamp sampleChild 3,
      store = \<lparr>data = [101 \<mapsto> stamp sampleRoot 1, 302 \<mapsto> stamp sampleChild 3],
               index = [(GlobalKey 1 101, 101), (TypeKey ''a'' 1 101, 101),
                        (TypeKey ''a/b'' 1 101, 101), (RootKey 101 1 101, 101),
                        (GlobalKey 3 302, 302), (TypeKey ''a'' 3 302, 302),
                        (RootKey 101 3 302, 302), (HeadKey 302, 302)],
               clock = 3\<rparr>,
      trace = [IndexSet (GlobalKey 3 302) 302, IndexSet (TypeKey ''a'' 3 302) 302,
               IndexSet (RootKey 101 3 302) 302, IndexSet (HeadKey 302) 302,
               DataPut 302 (stamp sampleChild 3), IndexDelete (HeadKey 101)]\<rparr>"
  by (simp add: put_def writePhases_def sampleStore_eq sample_defs Let_def)

lemma payloadFirst_eq:
  "payloadFirst =
     \<lparr>result = Inr 1, event = stamp sampleRoot 1,
      store = \<lparr>data = [1 \<mapsto> stamp sampleRoot 1],
               index = [(GlobalKey 1 1, 1), (TypeKey ''a'' 1 1, 1),
                        (TypeKey ''a/b'' 1 1, 1), (RootKey 1 1 1, 1),
                        (HeadKey 1, 1)],
               clock = 1\<rparr>,
      trace = [IndexSet (GlobalKey 1 1) 1, IndexSet (TypeKey ''a'' 1 1) 1,
               IndexSet (TypeKey ''a/b'' 1 1) 1, IndexSet (RootKey 1 1 1) 1,
               IndexSet (HeadKey 1) 1, DataPut 1 (stamp sampleRoot 1)]\<rparr>"
  by (simp add: payloadFirst_def payloadCollaborators_def put_def writePhases_def sample_defs
        Let_def)

lemma payloadSecond_event:
  "event (put payloadCollaborators (event payloadFirst) (store payloadFirst)) = stamp sampleRoot 2"
  by (simp add: payloadFirst_eq payloadCollaborators_def put_def writePhases_def sample_defs
        Let_def)

lemma put_diskFull:
  "put diskFullCollaborators sampleRoot emptyStore =
     \<lparr>result = Inl (CodedError ''disk full'' None None None), event = stamp sampleRoot 1,
      store = \<lparr>data = Map.empty,
               index = [(GlobalKey 1 101, 101), (TypeKey ''a'' 1 101, 101),
                        (TypeKey ''a/b'' 1 101, 101), (RootKey 101 1 101, 101),
                        (HeadKey 101, 101)],
               clock = 1\<rparr>,
      trace = [IndexSet (GlobalKey 1 101) 101, IndexSet (TypeKey ''a'' 1 101) 101,
               IndexSet (TypeKey ''a/b'' 1 101) 101, IndexSet (RootKey 101 1 101) 101,
               IndexSet (HeadKey 101) 101]\<rparr>"
  by (simp add: put_def writePhases_def diskFullCollaborators_def sample_defs Let_def)

lemma putMany_sampleBatch:
  "putMany sampleCollaborators sampleBatch emptyStore =
     ([(101, None),
       (2, Some (CodedError ''Missing dependencies'' (Some MissingDep) (Some [7]) None)),
       (3, Some (CodedError ''Failed to put'' (Some OpFailed) (Some [3])
                   (Some (CodedError ''Missing root Id'' (Some InvalidArg) None None)))),
       (304, None)],
      storeAfter sampleCollaborators sampleBatch emptyStore, None)"
  by (simp add: sampleBatch_def storeAfter_def putItem_def put_def writePhases_def sample_defs
        Let_def)

lemma put_unhashable:
  "put unhashableCollaborators (mkEvent 9 [] None ''a'')
       (store (put unhashableCollaborators sampleRoot emptyStore)) =
     \<lparr>result = Inl (CodedError ''cannot encode'' None None None),
      event = stamp (mkEvent 9 [] None ''a'') 2,
      store = (store (put unhashableCollaborators sampleRoot emptyStore))\<lparr>clock := 2\<rparr>,
      trace = []\<rparr>"
  by (simp add: unhashableCollaborators_def put_def writePhases_def sample_defs Let_def)

lemma putMany_unhashable:
  "putMany unhashableCollaborators unhashableBatch emptyStore =
     ([(101, None)],
      (store (put unhashableCollaborators sampleRoot emptyStore))\<lparr>clock := 2\<rparr>,
      Some (CodedError ''cannot encode'' None None None))"
  by (simp add: unhashableBatch_def putItem_def put_unhashable Let_def)
     (simp add: unhashableCollaborators_def putItem_def put_def writePhases_def sample_defs
        Let_def)

lemmas query_defs = keys_def sinceTimeOf_def deriveQueryRange_def rangeValues_def allEvents_def
  entries_def entriesFromKeys_def PAGE_SIZE_def

lemma sampleCollaborators_query:
  "getEventIndexRangeQueryOptions sampleCollaborators = deriveQueryRange"
  "indexValues sampleCollaborators = rangeValues"
  by (simp_all add: sampleCollaborators_def)

lemma keys_sampleChild:
  "keys sampleCollaborators allEvents (store (put sampleCollaborators sampleChild sampleStore))
     = ([101, 302], [302])"
  by (simp add: put_sampleChild query_defs sampleCollaborators_query Let_def)

lemma keys_danglingStore:
  "keys sampleCollaborators allEvents danglingStore = ([101], [101])"
  by (simp add: danglingStore_def put_diskFull query_defs sampleCollaborators_query Let_def)


lemma reliable_sample: "reliable sampleCollaborators"
  by (simp add: reliable_def sampleCollaborators_def)



section \<open>Claims\<close>

text \<open>
  C1, as amended. After a successful \<open>put\<close>, a second \<open>put\<close> of the event (the object
  as the first call left it, or the event as it was given) stamps the event anew and
  returns the same identifier exactly when the identifier computed for the event so
  stamped is the first one; the second call then leaves the index as it was and writes
  nothing to the index or to the content store.
\<close>

theorem put_twice_same_identifier:
  assumes o1: "o1 = put c e s" and e2: "e2 = e \<or> e2 = event o1"
    and o2: "o2 = put c e2 (store o1)" and ok: "result o1 = Inr key"
  shows "event o2 = stamp e (fst (tick c (referenceTime (data (store o1)) e2)
                                  (clock (store o1))))
       \<and> (result o2 = Inr key) = (hashError c (event o2) = None \<and> hash c (event o2) = key)
       \<and> (result o2 = Inr key \<longrightarrow> index (store o2) = index (store o1) \<and> trace o2 = [])"
proof -
  from ok have ok': "result (put c e s) = Inr key" by (simp add: o1)
  from put_success[OF ok'] have valid: "\<not> (root (meta e) = None \<and> parents (meta e) \<noteq> [])"
    and res: "\<forall>k \<in> set (parents (meta e)). data s k \<noteq> None" by simp_all
  let ?t = "fst (tick c (referenceTime (data s) e) (clock s))"
  have ev1: "event o1 = stamp e ?t" by (simp add: o1 put_event[OF valid res])
  have stored: "data (store o1) key \<noteq> None" using put_success_stored[OF ok'] by (simp add: o1)
  from e2 have same: "parents (meta e2) = parents (meta e)" "root (meta e2) = root (meta e)"
    and st2: "\<And>u. stamp e2 u = stamp e u"
    by (auto simp: ev1 stamp_fields stamp_stamp)
  have valid2: "\<not> (root (meta e2) = None \<and> parents (meta e2) \<noteq> [])"
    using valid by (simp add: same)
  have res2: "\<forall>k \<in> set (parents (meta e2)). data (store o1) k \<noteq> None"
  proof
    fix k assume "k \<in> set (parents (meta e2))"
    then have "k \<in> set (parents (meta e))" by (simp add: same)
    with res have "data s k \<noteq> None" by blast
    then show "data (store o1) k \<noteq> None" unfolding o1 by (rule put_data_mono)
  qed
  let ?u = "fst (tick c (referenceTime (data (store o1)) e2) (clock (store o1)))"
  have "event o2 = stamp e2 ?u" by (simp add: o2 put_event[OF valid2 res2])
  then have ev2: "event o2 = stamp e ?u" by (simp add: st2)
  have nec: "hashError c (event o2) = None \<and> hash c (event o2) = key"
    if r: "result o2 = Inr key"
  proof -
    from r have r': "result (put c e2 (store o1)) = Inr key" by (simp add: o2)
    from put_success_keyed[OF r'] put_result_key[OF r'] show ?thesis by (simp add: o2)
  qed
  have suff: "result o2 = Inr key \<and> index (store o2) = index (store o1) \<and> trace o2 = []"
    if h: "hashError c (event o2) = None \<and> hash c (event o2) = key"
  proof -
    from h have hk: "hashError c (event (put c e2 (store o1))) = None"
      by (simp add: o2)
    from h stored have st: "data (store o1) (hash c (event (put c e2 (store o1)))) \<noteq> None"
      by (simp add: o2)
    from put_duplicate[OF valid2 res2 hk st] h show ?thesis by (simp add: o2)
  qed
  from ev2 nec suff show ?thesis by blast
qed

theorem put_twice_same_identifier_witness:
  "result payloadFirst = Inr 1
   \<and> createdAt (meta (event payloadFirst)) = Some 1
   \<and> createdAt (meta (event (put payloadCollaborators (event payloadFirst) (store payloadFirst))))
       = Some 2
   \<and> hash payloadCollaborators
       (event (put payloadCollaborators (event payloadFirst) (store payloadFirst))) = 1
   \<and> result (put payloadCollaborators (event payloadFirst) (store payloadFirst)) = Inr 1
   \<and> index (store (put payloadCollaborators (event payloadFirst) (store payloadFirst)))
       = index (store payloadFirst)
   \<and> trace (put payloadCollaborators (event payloadFirst) (store payloadFirst)) = []"
proof -
  have r: "result payloadFirst = Inr 1" by (simp add: payloadFirst_eq)
  have t: "createdAt (meta (event payloadFirst)) = Some 1"
    "createdAt (meta (event (put payloadCollaborators (event payloadFirst) (store payloadFirst))))
       = Some 2"
    by (simp_all add: payloadSecond_event stamp_fields) (simp add: payloadFirst_eq stamp_fields)
  have h: "hashError payloadCollaborators
             (event (put payloadCollaborators (event payloadFirst) (store payloadFirst))) = None"
    "hash payloadCollaborators
       (event (put payloadCollaborators (event payloadFirst) (store payloadFirst))) = 1"
    by (simp_all add: payloadSecond_event)
       (simp_all add: payloadCollaborators_def sampleCollaborators_def stamp_fields
          sampleRoot_def mkEvent_def)
  from put_twice_same_identifier[OF payloadFirst_def disjI2[OF refl] refl r] r t h
  show ?thesis by simp
qed

text \<open>
  With a hash that covers the timestamp the second call, which stamps a later time,
  returns another identifier and writes a second set of index entries, whether it is given
  the same object or an equal copy of the original event.
\<close>

theorem put_twice_counterexample:
  "result (put sampleCollaborators sampleRoot emptyStore) = Inr 101
   \<and> result (put sampleCollaborators (event (put sampleCollaborators sampleRoot emptyStore))
               (store (put sampleCollaborators sampleRoot emptyStore))) = Inr 201
   \<and> result (put sampleCollaborators sampleRoot
               (store (put sampleCollaborators sampleRoot emptyStore))) = Inr 201
   \<and> index (store (put sampleCollaborators (event (put sampleCollaborators sampleRoot emptyStore))
               (store (put sampleCollaborators sampleRoot emptyStore))))
       = index (store (put sampleCollaborators sampleRoot emptyStore))
         @ [(GlobalKey 2 201, 201), (TypeKey ''a'' 2 201, 201), (TypeKey ''a/b'' 2 201, 201),
            (RootKey 201 2 201, 201), (HeadKey 201, 201)]"
  by (simp add: put_sampleRoot) (simp add: put_def writePhases_def sample_defs Let_def)

text \<open>
  C3. For an event that names its root (as an event with parents must, section 3) and
  whose parents are not all in the content store, \<open>put\<close> throws the missing-dependency error whose detail lists exactly the absent parents,
  in order; the event, the content store, the index and the clock are left as they were
  and nothing is written.
\<close>

theorem put_missing_dependencies:
  assumes "root (meta e) \<noteq> None"
    and "\<exists>k \<in> set (parents (meta e)). data s k = None"
  shows "put c e s =
     \<lparr>result = Inl (operationError ''Missing dependencies'' MissingDep
                      (Some (filter (\<lambda>k. data s k = None) (parents (meta e)))) None),
      event = e, store = s, trace = []\<rparr>"
  using assms by (intro put_missing) simp_all

theorem put_missing_dependencies_witness:
  "root (meta (mkEvent 2 [7, 101] (Some 101) ''a'')) = Some 101
   \<and> data sampleStore 7 = None \<and> data sampleStore 101 \<noteq> None
   \<and> put sampleCollaborators (mkEvent 2 [7, 101] (Some 101) ''a'') sampleStore =
     \<lparr>result = Inl (CodedError ''Missing dependencies'' (Some MissingDep) (Some [7]) None),
      event = mkEvent 2 [7, 101] (Some 101) ''a'', store = sampleStore, trace = []\<rparr>"
proof -
  have a: "root (meta (mkEvent 2 [7, 101] (Some 101) ''a'')) \<noteq> None" by (simp add: mkEvent_def)
  have b: "\<exists>k \<in> set (parents (meta (mkEvent 2 [7, 101] (Some 101) ''a''))). data sampleStore k = None"
    by (simp add: mkEvent_def sampleStore_eq)
  from put_missing_dependencies[OF a b, of sampleCollaborators]
  show ?thesis by (simp add: mkEvent_def sampleStore_eq operationError_def)
qed

text \<open>
  C10. When validation and parent resolution pass, the caller's event is overwritten with
  the tick of the clock reference, on every later path; the identifier returned and the
  identifier of every index entry written are computed from the stamped event; payload,
  parents, root and type are as the caller gave them.
\<close>

theorem put_overwrites_createdAt:
  assumes "\<not> (root (meta e) = None \<and> parents (meta e) \<noteq> [])"
    and "\<forall>k \<in> set (parents (meta e)). data s k \<noteq> None"
  shows "event (put c e s) = stamp e (fst (tick c (referenceTime (data s) e) (clock s)))
     \<and> createdAt (meta (event (put c e s)))
         = Some (fst (tick c (referenceTime (data s) e) (clock s)))
     \<and> (\<forall>key. result (put c e s) = Inr key \<longrightarrow> key = hash c (event (put c e s)))
     \<and> (\<forall>k v. IndexSet k v \<in> set (trace (put c e s)) \<longrightarrow> v = hash c (event (put c e s)))
     \<and> payload (event (put c e s)) = payload e
     \<and> parents (meta (event (put c e s))) = parents (meta e)
     \<and> root (meta (event (put c e s))) = root (meta e)
     \<and> type (meta (event (put c e s))) = type (meta e)"
proof -
  have ev: "event (put c e s) = stamp e (fst (tick c (referenceTime (data s) e) (clock s)))"
    by (rule put_event[OF assms])
  have k: "\<forall>key. result (put c e s) = Inr key \<longrightarrow> key = hash c (event (put c e s))"
    using put_result_key by blast
  have tr: "\<forall>k v. IndexSet k v \<in> set (trace (put c e s)) \<longrightarrow> v = hash c (event (put c e s))"
    by (intro allI impI) (rule put_trace_sets)
  have fields: "createdAt (meta (event (put c e s)))
         = Some (fst (tick c (referenceTime (data s) e) (clock s)))"
    "payload (event (put c e s)) = payload e"
    "parents (meta (event (put c e s))) = parents (meta e)"
    "root (meta (event (put c e s))) = root (meta e)"
    "type (meta (event (put c e s))) = type (meta e)"
    by (simp_all add: ev stamp_fields)
  from ev k tr fields show ?thesis by blast
qed

theorem put_overwrites_createdAt_witness:
  "root (meta sampleChild) = Some 101 \<and> parents (meta sampleChild) = [101]
   \<and> data sampleStore 101 \<noteq> None
   \<and> event (put sampleCollaborators sampleChild sampleStore) = stamp sampleChild 3
   \<and> createdAt (meta (event (put sampleCollaborators sampleChild sampleStore))) = Some 3
   \<and> result (put sampleCollaborators sampleChild sampleStore) = Inr 302
   \<and> parents (meta (event (put sampleCollaborators sampleChild sampleStore))) = [101]
   \<and> result (put diskFullCollaborators sampleRoot emptyStore)
       = Inl (CodedError ''disk full'' None None None)
   \<and> createdAt (meta (event (put diskFullCollaborators sampleRoot emptyStore))) = Some 1"
proof -
  have v: "\<not> (root (meta sampleChild) = None \<and> parents (meta sampleChild) \<noteq> [])"
    by (simp add: sampleChild_def mkEvent_def)
  have r: "\<forall>k \<in> set (parents (meta sampleChild)). data sampleStore k \<noteq> None"
    by (simp add: sampleChild_def mkEvent_def sampleStore_eq)
  have rt: "fst (tick sampleCollaborators (referenceTime (data sampleStore) sampleChild) (clock sampleStore)) = 3"
    by (simp add: referenceTime_def sampleStore_eq sample_defs Let_def)
  have v': "\<not> (root (meta sampleRoot) = None \<and> parents (meta sampleRoot) \<noteq> [])"
    and r': "\<forall>k \<in> set (parents (meta sampleRoot)). data emptyStore k \<noteq> None"
    by (simp_all add: sampleRoot_def mkEvent_def)
  have rt': "fst (tick diskFullCollaborators (referenceTime (data emptyStore) sampleRoot)
                    (clock emptyStore)) = 1"
    by (simp add: referenceTime_def diskFullCollaborators_def sample_defs Let_def)
  from put_overwrites_createdAt[OF v' r', of diskFullCollaborators] rt'
  have failing: "result (put diskFullCollaborators sampleRoot emptyStore)
       = Inl (CodedError ''disk full'' None None None)
     \<and> createdAt (meta (event (put diskFullCollaborators sampleRoot emptyStore))) = Some 1"
    by (simp add: put_diskFull)
  from put_overwrites_createdAt[OF v r, of sampleCollaborators] rt
  have "root (meta sampleChild) = Some 101 \<and> parents (meta sampleChild) = [101]
   \<and> data sampleStore 101 \<noteq> None
   \<and> event (put sampleCollaborators sampleChild sampleStore) = stamp sampleChild 3
   \<and> createdAt (meta (event (put sampleCollaborators sampleChild sampleStore))) = Some 3
   \<and> result (put sampleCollaborators sampleChild sampleStore) = Inr 302
   \<and> parents (meta (event (put sampleCollaborators sampleChild sampleStore))) = [101]"
    by (simp add: put_sampleChild)
       (simp add: stamp_fields sampleChild_def mkEvent_def sampleStore_eq)
  with failing show ?thesis by blast
qed

text \<open>
  C2. An event that \<open>put\<close> stores under a new identifier is the caller's event stamped
  with the tick of the clock reference, where the reference is the maximum of the
  \<open>createdAt\<close> hint and of \<open>createdAt + 1\<close> over the resolved parents; the clock
  answering above its reference (section 4.1), the stored \<open>createdAt\<close> is strictly
  greater than the \<open>createdAt\<close> of every parent, also where the sum on doubles is the
  parent's own time.
\<close>

theorem put_createdAt_after_parents:
  assumes new: "data s k = None" and stored: "data (store (put c e s)) k = Some ev"
    and tick_gt: "\<forall>r cl. r < fst (tick c r cl)"
  shows "ev = stamp e (fst (tick c (referenceTime (data s) e) (clock s)))
       \<and> (\<forall>pk \<in> set (parents (meta ev)).
             \<exists>p. data s pk = Some p
                 \<and> orZero (createdAt (meta p)) < orZero (createdAt (meta ev)))"
proof -
  let ?t = "fst (tick c (referenceTime (data s) e) (clock s))"
  from new stored have ch: "data (store (put c e s)) \<noteq> data s" by auto
  with put_data_cases[of c e s]
  have valid: "\<not> (root (meta e) = None \<and> parents (meta e) \<noteq> [])"
    and res: "\<forall>k \<in> set (parents (meta e)). data s k \<noteq> None"
    and upd: "data (store (put c e s)) = (data s)(hash c (event (put c e s)) \<mapsto> event (put c e s))"
    by auto
  from new stored upd have "ev = event (put c e s)"
    by (auto simp: fun_upd_def split: if_splits)
  then have ev: "ev = stamp e ?t" by (simp add: put_event[OF valid res])
  have "\<exists>p. data s pk = Some p \<and> orZero (createdAt (meta p)) < orZero (createdAt (meta ev))"
    if pk: "pk \<in> set (parents (meta ev))" for pk
  proof -
    from pk have pk': "pk \<in> set (parents (meta e))" by (simp add: ev stamp_fields)
    with res obtain p where p: "data s pk = Some p" by auto
    have "orZero (createdAt (meta p)) \<le> addOne (orZero (createdAt (meta p)))"
      by (rule addOne_ge)
    also from referenceTime_ge_parent[of pk e "data s" p, OF pk' p]
    have "\<dots> \<le> referenceTime (data s) e" .
    also from tick_gt have "\<dots> < ?t" by blast
    finally show ?thesis using p by (simp add: ev stamp_fields orZero_simps)
  qed
  with ev show ?thesis by blast
qed

theorem put_createdAt_after_parents_witness:
  "data sampleStore 302 = None
   \<and> data (store (put sampleCollaborators sampleChild sampleStore)) 302 = Some (stamp sampleChild 3)
   \<and> data sampleStore 101 = Some (stamp sampleRoot 1)
   \<and> orZero (createdAt (meta (stamp sampleRoot 1)))
       < orZero (createdAt (meta (stamp sampleChild 3)))"
proof -
  have a: "data sampleStore 302 = None" by (simp add: sampleStore_eq)
  have b: "data (store (put sampleCollaborators sampleChild sampleStore)) 302
             = Some (stamp sampleChild 3)"
    by (simp add: put_sampleChild)
  have c: "\<forall>r cl. r < fst (tick sampleCollaborators r cl)"
    by (auto simp: sampleCollaborators_def atomicHybridTime_def Let_def)
  have d: "data sampleStore 101 = Some (stamp sampleRoot 1)" by (simp add: sampleStore_eq)
  have "101 \<in> set (parents (meta (stamp sampleChild 3)))"
    by (simp add: stamp_fields sampleChild_def mkEvent_def)
  with put_createdAt_after_parents[OF a b c]
  have "\<exists>p. data sampleStore 101 = Some p
           \<and> orZero (createdAt (meta p)) < orZero (createdAt (meta (stamp sampleChild 3)))"
    by blast
  with a b d show ?thesis by simp
qed

text \<open>
  C5, as amended. For a new identifier (\<open>getKey\<close> has answered and the content store
  does not hold it) the writes happen in this order: the index entries
  of the new event, one after the other up to the first that fails; then, only if all of
  them were written, the event content; then, only if the content was written, the
  removal of the parents' head entries up to the first that fails. A failed index write
  or removal through the batch interface is thrown as an operation-failed error (with
  the messages of lines 82 and 104); a failed content write, and a failure of the
  single-entry interfaces, is thrown as the backing map raised it.
\<close>

theorem put_write_phases:
  assumes valid: "\<not> (root (meta e) = None \<and> parents (meta e) \<noteq> [])"
    and res: "\<forall>k \<in> set (parents (meta e)). data s k \<noteq> None"
    and e1: "e1 = stamp e (fst (tick c (referenceTime (data s) e) (clock s)))"
    and hk: "hashError c e1 = None"
    and key: "key = hash c e1"
    and new: "data s key = None"
    and ks: "ks = getEventIndexKeys c key e1 False"
    and hs: "hs = concat (map (\<lambda>k. getEventIndexKeys c k (the (data s k)) True) (parents (meta e)))"
  shows "trace (put c e s) =
           map (\<lambda>k. IndexSet k key) (takeWhile (\<lambda>k. setError c k = None) ks)
           @ (if find (\<lambda>k. setError c k \<noteq> None) ks = None \<and> putError c e1 = None
              then DataPut key e1 # map IndexDelete (takeWhile (\<lambda>k. deleteError c k = None) hs)
              else [])
       \<and> result (put c e s) =
           (case find (\<lambda>k. setError c k \<noteq> None) ks of
              Some k \<Rightarrow>
                Inl (if hasSetMany c
                     then operationError ''Failed to save indices'' OpFailed None (setError c k)
                     else the (setError c k))
            | None \<Rightarrow>
                (case putError c e1 of
                   Some err \<Rightarrow> Inl err
                 | None \<Rightarrow>
                     (case find (\<lambda>k. deleteError c k \<noteq> None) hs of
                        Some k \<Rightarrow>
                          Inl (if hasDeleteMany c
                               then operationError ''Failed to delete old indices'' OpFailed None
                                      (deleteError c k)
                               else the (deleteError c k))
                      | None \<Rightarrow> Inr key)))
       \<and> data (store (put c e s)) =
           (if find (\<lambda>k. setError c k \<noteq> None) ks = None \<and> putError c e1 = None
            then (data s)(key \<mapsto> e1) else data s)"
proof -
  obtain t cl where tk: "tick c (referenceTime (data s) e) (clock s) = (t, cl)"
    by (cases "tick c (referenceTime (data s) e) (clock s)")
  have e1': "e1 = stamp e t" by (simp add: e1 tk)
  have hs': "hs = concat (map (\<lambda>(k, p). getEventIndexKeys c k p True)
                    (map (\<lambda>k. (k, the (data s k))) (parents (meta e))))"
    by (simp add: hs comp_def)
  have p: "put c e s = writePhases c key e1
             (map (\<lambda>k. (k, the (data s k))) (parents (meta e))) (s\<lparr>clock := cl\<rparr>)"
    using new hk by (simp add: put_resolved[OF valid res] tk key e1')
  show ?thesis
    unfolding p writePhases_eq Let_def ks[symmetric] hs'[symmetric] key[symmetric]
    by (simp split: option.splits)
qed

theorem put_write_phases_witness:
  "root (meta sampleChild) = Some 101 \<and> parents (meta sampleChild) = [101]
   \<and> data sampleStore 101 = Some (stamp sampleRoot 1) \<and> data sampleStore 302 = None
   \<and> trace (put sampleCollaborators sampleChild sampleStore) =
       [IndexSet (GlobalKey 3 302) 302, IndexSet (TypeKey ''a'' 3 302) 302,
        IndexSet (RootKey 101 3 302) 302, IndexSet (HeadKey 302) 302,
        DataPut 302 (stamp sampleChild 3), IndexDelete (HeadKey 101)]
   \<and> result (put sampleCollaborators sampleChild sampleStore) = Inr 302"
proof -
  have v: "\<not> (root (meta sampleChild) = None \<and> parents (meta sampleChild) \<noteq> [])"
    by (simp add: sampleChild_def mkEvent_def)
  have r: "\<forall>k \<in> set (parents (meta sampleChild)). data sampleStore k \<noteq> None"
    by (simp add: sampleChild_def mkEvent_def sampleStore_eq)
  have t: "fst (tick sampleCollaborators (referenceTime (data sampleStore) sampleChild)
                 (clock sampleStore)) = 3"
    by (simp add: referenceTime_def sampleStore_eq sample_defs Let_def)
  have k: "hash sampleCollaborators (stamp sampleChild 3) = 302"
    by (simp add: sample_defs)
  have h: "hashError sampleCollaborators (stamp sampleChild
             (fst (tick sampleCollaborators (referenceTime (data sampleStore) sampleChild)
                 (clock sampleStore)))) = None"
    by (simp add: sampleCollaborators_def)
  have n: "data sampleStore (hash sampleCollaborators (stamp sampleChild
             (fst (tick sampleCollaborators (referenceTime (data sampleStore) sampleChild)
                 (clock sampleStore))))) = None"
    unfolding t k by (simp add: sampleStore_eq)
  have ks: "getEventIndexKeys sampleCollaborators 302 (stamp sampleChild 3) False
      = [GlobalKey 3 302, TypeKey ''a'' 3 302, RootKey 101 3 302, HeadKey 302]"
    by (simp add: sample_defs)
  have hs: "concat (map (\<lambda>k. getEventIndexKeys sampleCollaborators k (the (data sampleStore k)) True)
               (parents (meta sampleChild))) = [HeadKey 101]"
    by (simp add: sample_defs sampleStore_eq)
  have ne: "setError sampleCollaborators = (\<lambda>k. None)" "deleteError sampleCollaborators = (\<lambda>k. None)"
    "putError sampleCollaborators = (\<lambda>e. None)"
    by (simp_all add: sampleCollaborators_def)
  from put_write_phases[OF v r refl h refl n refl refl]
  have "trace (put sampleCollaborators sampleChild sampleStore) =
       [IndexSet (GlobalKey 3 302) 302, IndexSet (TypeKey ''a'' 3 302) 302,
        IndexSet (RootKey 101 3 302) 302, IndexSet (HeadKey 302) 302,
        DataPut 302 (stamp sampleChild 3), IndexDelete (HeadKey 101)]
     \<and> result (put sampleCollaborators sampleChild sampleStore) = Inr 302"
    unfolding t k ks hs ne by simp
  then show ?thesis by (simp add: sampleChild_def mkEvent_def sampleStore_eq)
qed

text \<open>
  A content store that raises a plain error: \<open>put\<close> throws that very error, which carries
  no operation-failed code.
\<close>

theorem put_write_phases_counterexample:
  "putError diskFullCollaborators (stamp sampleRoot 1) = Some (CodedError ''disk full'' None None None)
   \<and> result (put diskFullCollaborators sampleRoot emptyStore)
       = Inl (CodedError ''disk full'' None None None)
   \<and> code (CodedError ''disk full'' None None None) = None"
  by (simp add: put_diskFull) (simp add: diskFullCollaborators_def)

text \<open>
  C7, as amended. When \<open>getKey\<close> answers for every event of the batch as \<open>put\<close> leaves
  it, \<open>putMany\<close> runs to the end and yields one result per input event, in input order:
  the result at position \<open>i\<close> is that of \<open>put\<close> on the \<open>i\<close>-th event in the store the
  calls of \<open>put\<close> on the earlier events left, and the store at the end is the one they
  all left. A success gives the key alone; a thrown missing-dependency error is passed on
  as it is (detail included); any other error is wrapped into an operation-failed error
  whose detail is the event's key and whose cause is the error thrown.
\<close>

theorem putMany_one_result_per_event:
  assumes keyed:
    "\<forall>i < length vs. hashError c (event (put c (vs ! i) (storeAfter c (take i vs) s))) = None"
  shows "length (fst (putMany c vs s)) = length vs
   \<and> snd (snd (putMany c vs s)) = None
   \<and> fst (snd (putMany c vs s)) = storeAfter c vs s
   \<and> (\<forall>i < length vs.
         fst (putMany c vs s) ! i =
           (case result (put c (vs ! i) (storeAfter c (take i vs) s)) of
              Inr key \<Rightarrow> (key, None)
            | Inl err \<Rightarrow>
                (hash c (event (put c (vs ! i) (storeAfter c (take i vs) s))),
                 Some (if code err = Some MissingDep then err
                       else operationError ''Failed to put'' OpFailed
                              (Some [hash c (event (put c (vs ! i) (storeAfter c (take i vs) s)))])
                              (Some err)))))
   \<and> (\<forall>i < length vs.
         root (meta (vs ! i)) \<noteq> None
         \<and> (\<exists>k \<in> set (parents (meta (vs ! i))). data (storeAfter c (take i vs) s) k = None)
         \<longrightarrow> fst (putMany c vs s) ! i =
               (hash c (vs ! i),
                Some (operationError ''Missing dependencies'' MissingDep
                        (Some (filter (\<lambda>k. data (storeAfter c (take i vs) s) k = None)
                                (parents (meta (vs ! i))))) None)))"
proof -
  note pm = putMany_keyed[OF keyed]
  have len: "length (fst (putMany c vs s)) = length vs" by (simp add: pm)
  have ab: "snd (snd (putMany c vs s)) = None" by (simp add: pm)
  have st: "fst (snd (putMany c vs s)) = storeAfter c vs s" by (simp add: pm)
  have nth: "fst (putMany c vs s) ! i =
           (case result (put c (vs ! i) (storeAfter c (take i vs) s)) of
              Inr key \<Rightarrow> (key, None)
            | Inl err \<Rightarrow>
                (hash c (event (put c (vs ! i) (storeAfter c (take i vs) s))),
                 Some (if code err = Some MissingDep then err
                       else operationError ''Failed to put'' OpFailed
                              (Some [hash c (event (put c (vs ! i) (storeAfter c (take i vs) s)))])
                              (Some err))))"
    if "i < length vs" for i
    using that by (simp add: pm cong: sum.case_cong if_cong)
  have mis: "fst (putMany c vs s) ! i =
               (hash c (vs ! i),
                Some (operationError ''Missing dependencies'' MissingDep
                        (Some (filter (\<lambda>k. data (storeAfter c (take i vs) s) k = None)
                                (parents (meta (vs ! i))))) None))"
    if i: "i < length vs" and r: "root (meta (vs ! i)) \<noteq> None"
      and m: "\<exists>k \<in> set (parents (meta (vs ! i))). data (storeAfter c (take i vs) s) k = None"
    for i
  proof -
    have "put c (vs ! i) (storeAfter c (take i vs) s) =
       \<lparr>result = Inl (operationError ''Missing dependencies'' MissingDep
                        (Some (filter (\<lambda>k. data (storeAfter c (take i vs) s) k = None)
                                (parents (meta (vs ! i))))) None),
        event = vs ! i, store = storeAfter c (take i vs) s, trace = []\<rparr>"
      using r m by (intro put_missing) simp_all
    then show ?thesis by (simp add: nth[OF i] operationError_def)
  qed
  from len ab st nth mis show ?thesis by blast
qed

theorem putMany_one_result_per_event_witness:
  "length sampleBatch = 4
   \<and> root (meta (sampleBatch ! 1)) = Some 7
   \<and> data (storeAfter sampleCollaborators (take 1 sampleBatch) emptyStore) 7 = None
   \<and> length (fst (putMany sampleCollaborators sampleBatch emptyStore)) = 4
   \<and> fst (putMany sampleCollaborators sampleBatch emptyStore) =
       [(101, None),
        (2, Some (CodedError ''Missing dependencies'' (Some MissingDep) (Some [7]) None)),
        (3, Some (CodedError ''Failed to put'' (Some OpFailed) (Some [3])
                    (Some (CodedError ''Missing root Id'' (Some InvalidArg) None None)))),
        (304, None)]
   \<and> fst (snd (putMany sampleCollaborators sampleBatch emptyStore))
       = storeAfter sampleCollaborators sampleBatch emptyStore
   \<and> snd (snd (putMany sampleCollaborators sampleBatch emptyStore)) = None"
proof -
  have k: "\<forall>i < length sampleBatch.
             hashError sampleCollaborators
               (event (put sampleCollaborators (sampleBatch ! i)
                           (storeAfter sampleCollaborators (take i sampleBatch) emptyStore))) = None"
    by (simp add: sampleCollaborators_def)
  have m: "root (meta (sampleBatch ! 1)) = Some 7"
    "data (storeAfter sampleCollaborators (take 1 sampleBatch) emptyStore) 7 = None"
    by (simp_all add: sampleBatch_def mkEvent_def storeAfter_def put_sampleRoot)
  from putMany_one_result_per_event[OF k] m putMany_sampleBatch
  show ?thesis by (simp add: sampleBatch_def)
qed

text \<open>
  A hash that throws on the second event of three: \<open>put\<close> throws at line 70, the handler's
  own \<open>getKey\<close> throws again, and the iteration ends with that error after one result;
  the third event is never put.
\<close>

theorem putMany_aborts_counterexample:
  "length unhashableBatch = 3
   \<and> result (put unhashableCollaborators (unhashableBatch ! 1)
               (storeAfter unhashableCollaborators (take 1 unhashableBatch) emptyStore))
       = Inl (CodedError ''cannot encode'' None None None)
   \<and> fst (putMany unhashableCollaborators unhashableBatch emptyStore) = [(101, None)]
   \<and> snd (snd (putMany unhashableCollaborators unhashableBatch emptyStore))
       = Some (CodedError ''cannot encode'' None None None)"
  by (simp add: putMany_unhashable)
     (simp add: unhashableBatch_def storeAfter_def put_unhashable)

text \<open>
  C6, as amended. Putting the same value a second time returns the same identifier and
  leaves the contents of the backing map as the first put left them, but it is not a
  no-op: every put writes the entry to the backing map again.
\<close>

theorem cas_put_twice:
  "fst (cas_put h v (snd (cas_put h v s))) = fst (cas_put h v s)
   \<and> fst (snd (cas_put h v (snd (cas_put h v s)))) = fst (snd (cas_put h v s))
   \<and> snd (snd (cas_put h v (snd (cas_put h v s)))) = snd (snd (cas_put h v s)) @ [(h v, v)]"
  by (simp add: cas_put_def Let_def)

text \<open>
  The second put of a value issues a second write; and when the identifier is already
  taken by another value, the put replaces that value.
\<close>

theorem cas_put_rewrites_counterexample:
  "snd (snd (cas_put (\<lambda>v. v) 7 (snd (cas_put (\<lambda>v. v) 7 (Map.empty, []))))) = [(7, 7), (7, 7 :: nat)]
   \<and> fst (snd (cas_put (\<lambda>v. 0) (2 :: nat) ([0 \<mapsto> 1], []))) 0 = Some 2"
  by (simp add: cas_put_def Let_def)

text \<open>
  C9, as amended. \<open>entries\<close> yields, in the order of \<open>keys\<close>, the pair of every key whose
  content resolves and skips the others; the keys are resolved in non-empty pages of at
  most 50; the completion value is the completion value of \<open>keys\<close>, that is the last key
  scanned from the index, whether or not its content resolved.
\<close>

theorem entries_of_keys:
  "fst (entries c opts s) =
     concat (map (\<lambda>k. case data s k of Some e \<Rightarrow> [(k, e)] | None \<Rightarrow> []) (fst (keys c opts s)))
   \<and> snd (entries c opts s) = snd (keys c opts s)
   \<and> concat (bufferPages (fst (keys c opts s)) []) = fst (keys c opts s)
   \<and> (\<forall>page \<in> set (bufferPages (fst (keys c opts s)) []).
         page \<noteq> [] \<and> length page \<le> PAGE_SIZE)"
proof -
  have "concat (map (\<lambda>page. fst (entriesFromKeys m page)) pages) =
        concat (map (\<lambda>k. case m k of Some e \<Rightarrow> [(k, e)] | None \<Rightarrow> []) (concat pages))"
    for m :: "ContentId \<rightharpoonup> Event" and pages
    by (induction pages) (simp_all add: entriesFromKeys_fst)
  then have "fst (entries c opts s) =
     concat (map (\<lambda>k. case data s k of Some e \<Rightarrow> [(k, e)] | None \<Rightarrow> []) (fst (keys c opts s)))"
    by (simp add: entries_def bufferPages_concat split: prod.splits)
  moreover have "snd (entries c opts s) = snd (keys c opts s)"
    by (simp add: entries_def split: prod.splits)
  moreover have "\<forall>page \<in> set (bufferPages (fst (keys c opts s)) []).
         page \<noteq> [] \<and> length page \<le> PAGE_SIZE"
    using bufferPages_bound[of "[]"] by (auto simp: PAGE_SIZE_def)
  ultimately show ?thesis by (simp add: bufferPages_concat)
qed

theorem entries_of_keys_witness:
  "bufferPages (fst (keys sampleCollaborators allEvents
       (store (put sampleCollaborators sampleChild sampleStore)))) [] = [[101, 302]]
   \<and> entries sampleCollaborators allEvents (store (put sampleCollaborators sampleChild sampleStore))
       = ([(101, stamp sampleRoot 1), (302, stamp sampleChild 3)], [302])"
proof -
  have "fst (entries sampleCollaborators allEvents (store (put sampleCollaborators sampleChild sampleStore)))
       = [(101, stamp sampleRoot 1), (302, stamp sampleChild 3)]
     \<and> snd (entries sampleCollaborators allEvents (store (put sampleCollaborators sampleChild sampleStore)))
       = [302]"
    using entries_of_keys[of sampleCollaborators allEvents
            "store (put sampleCollaborators sampleChild sampleStore)"]
    unfolding keys_sampleChild by (simp add: put_sampleChild)
  then show ?thesis
    by (simp add: keys_sampleChild PAGE_SIZE_def prod_eq_iff)
qed

text \<open>
  An index entry whose content was never written: \<open>entries\<close> yields nothing and still
  completes with that key.
\<close>

theorem entries_completion_counterexample:
  "data danglingStore 101 = None
   \<and> keys sampleCollaborators allEvents danglingStore = ([101], [101])
   \<and> entries sampleCollaborators allEvents danglingStore = ([], [101])"
  by (simp add: keys_danglingStore entries_def entriesFromKeys_def getMany_def PAGE_SIZE_def)
     (simp add: danglingStore_def put_diskFull)

text \<open>
  C4. With the key scheme of the specification and backing maps that do not fail, in every
  store built from the empty store by calls of \<open>put\<close>, the head-marker family holds
  exactly the identifiers of the stored events that have no stored dependent, and a
  heads-only query returns these identifiers, each once. After storing a parentless
  event and then a child of it (under a different identifier), the heads-only query
  returns the child alone.
\<close>

theorem heads_are_events_without_dependents:
  assumes rel: "reliable c" and gk: "getEventIndexKeys c = deriveKeys sep"
    and gr: "getEventIndexRangeQueryOptions c = deriveQueryRange"
    and iv: "indexValues c = rangeValues"
    and s: "s = storeAfter c es emptyStore"
  shows "(\<forall>k. (HeadKey k \<in> fst ` set (index s))
              = (data s k \<noteq> None \<and> \<not> hasDependent (data s) k))
       \<and> set (fst (keys c headsOnly s)) = {k. data s k \<noteq> None \<and> \<not> hasDependent (data s) k}
       \<and> distinct (fst (keys c headsOnly s))
       \<and> (\<forall>r ch kr kc.
            es = [r, ch] \<and> parents (meta r) = [] \<and> parents (meta ch) = [kr]
            \<and> result (put c r emptyStore) = Inr kr
            \<and> result (put c ch (store (put c r emptyStore))) = Inr kc \<and> kc \<noteq> kr
            \<longrightarrow> fst (keys c headsOnly s) = [kc])"
proof -
  have inv: "headsConsistent s"
    unfolding s by (rule headsConsistent_storeAfter[OF rel gk headsConsistent_empty])
  then have heads: "\<And>k. (map_of (index s) (HeadKey k) \<noteq> None)
              = (data s k \<noteq> None \<and> \<not> hasDependent (data s) k)"
    unfolding headsConsistent_def by blast
  have a: "(HeadKey k \<in> fst ` set (index s))
              = (data s k \<noteq> None \<and> \<not> hasDependent (data s) k)" for k
    using heads[of k] by (simp add: map_of_eq_None_iff)
  have q: "fst (keys c headsOnly s)
     = map snd (sort_key (\<lambda>kv. keyOrder (fst kv))
                 (filter (\<lambda>kv. keyScope (fst kv) = HeadScope) (index s)))"
    unfolding headsOnly_def by (rule keys_heads[OF gr iv])
  have b: "set (fst (keys c headsOnly s)) = {k. data s k \<noteq> None \<and> \<not> hasDependent (data s) k}"
    unfolding q by (rule heads_query_set[OF inv])
  have d: "distinct (fst (keys c headsOnly s))"
    unfolding q by (rule heads_query_distinct[OF inv])
  have e: "fst (keys c headsOnly s) = [kc]"
    if es: "es = [r, ch]" and pr: "parents (meta r) = []" and pc: "parents (meta ch) = [kr]"
      and r1: "result (put c r emptyStore) = Inr kr"
      and r2: "result (put c ch (store (put c r emptyStore))) = Inr kc" and ne: "kc \<noteq> kr"
    for r ch kr kc
  proof -
    let ?s1 = "store (put c r emptyStore)"
    let ?e1 = "event (put c r emptyStore)"
    let ?e2 = "event (put c ch ?s1)"
    have s2: "s = store (put c ch ?s1)" by (simp add: s es storeAfter_def)
    have "data emptyStore kr = None" by (simp add: emptyStore_def)
    from single_put_data[OF r1 this]
    have d1: "data ?s1 = [kr \<mapsto> ?e1]" and p1: "parents (meta ?e1) = []"
      by (simp_all add: emptyStore_def pr)
    from d1 ne have "data ?s1 kc = None" by simp
    from single_put_data[OF r2 this]
    have d2: "data s = [kr \<mapsto> ?e1, kc \<mapsto> ?e2]" and p2: "parents (meta ?e2) = [kr]"
      by (simp_all add: s2 d1 pc)
    have "hasDependent (data s) k \<longleftrightarrow> k = kr" for k
      unfolding hasDependent_def d2 using p1 p2 ne
      by (auto split: if_splits)
    then have "{k. data s k \<noteq> None \<and> \<not> hasDependent (data s) k} = {kc}"
      using ne by (auto simp: d2)
    with b d show ?thesis by (intro distinct_singleton) simp_all
  qed
  from a b d e show ?thesis by blast
qed

theorem heads_are_events_without_dependents_witness:
  "parents (meta sampleRoot) = [] \<and> parents (meta sampleChild) = [101]
   \<and> result (put sampleCollaborators sampleRoot emptyStore) = Inr 101
   \<and> result (put sampleCollaborators sampleChild (store (put sampleCollaborators sampleRoot emptyStore)))
       = Inr 302
   \<and> fst (keys sampleCollaborators headsOnly
            (storeAfter sampleCollaborators [sampleRoot, sampleChild] emptyStore)) = [302]"
proof -
  have h: "parents (meta sampleRoot) = []" "parents (meta sampleChild) = [101]"
    "result (put sampleCollaborators sampleRoot emptyStore) = Inr 101"
    "result (put sampleCollaborators sampleChild (store (put sampleCollaborators sampleRoot emptyStore)))
       = Inr 302"
    using put_sampleChild[unfolded sampleStore_def]
    by (simp_all add: put_sampleRoot) (simp_all add: sampleRoot_def sampleChild_def mkEvent_def)
  have f: "getEventIndexKeys sampleCollaborators = deriveKeys (CHR ''/'')"
    "getEventIndexRangeQueryOptions sampleCollaborators = deriveQueryRange"
    "indexValues sampleCollaborators = rangeValues"
    by (simp_all add: sampleCollaborators_def)
  have ne: "(302 :: nat) \<noteq> 101" by simp
  from heads_are_events_without_dependents[OF reliable_sample f refl,
      of "[sampleRoot, sampleChild]"]
  have "\<forall>r ch kr kc.
            [sampleRoot, sampleChild] = [r, ch] \<and> parents (meta r) = [] \<and> parents (meta ch) = [kr]
            \<and> result (put sampleCollaborators r emptyStore) = Inr kr
            \<and> result (put sampleCollaborators ch (store (put sampleCollaborators r emptyStore)))
                = Inr kc \<and> kc \<noteq> kr
            \<longrightarrow> fst (keys sampleCollaborators headsOnly
                     (storeAfter sampleCollaborators [sampleRoot, sampleChild] emptyStore)) = [kc]"
    by (elim conjE)
  from this[rule_format, of sampleRoot sampleChild 101 302] h ne
  have "fst (keys sampleCollaborators headsOnly
            (storeAfter sampleCollaborators [sampleRoot, sampleChild] emptyStore)) = [302]"
    by simp
  with h show ?thesis by simp
qed



end
